theory Spec2Isabelle
  imports Main "HOL-Library.Word" "HOL-Library.Char_ord" "HOL-Library.List_Lexorder"
begin

section \<open>The record store of hostblock (src/hb/src/data.cpp)\<close>

subsection \<open>Characters, trimming and number conversion\<close>

abbreviation nl :: char where "nl \<equiv> CHR 0x0A"
abbreviation sp :: char where "sp \<equiv> CHR 0x20"

definition isspace :: "char \<Rightarrow> bool" where
  "isspace c = (c = sp \<or> c = CHR 0x09 \<or> c = nl \<or> c = CHR 0x0B \<or> c = CHR 0x0C \<or> c = CHR 0x0D)"

definition isdigit :: "char \<Rightarrow> bool" where
  "isdigit c = (48 \<le> (of_char c :: nat) \<and> (of_char c :: nat) \<le> 57)"

text \<open>Modelled from the spec: util.h and util.cpp (hb::Util::ltrim, hb::Util::rtrim) are
  not among the sources; the spec has the loader "trim padding", so the two functions
  drop the leading, respectively the trailing, white space of a string.\<close>

definition ltrim :: "string \<Rightarrow> string" where
  "ltrim s = dropWhile isspace s"

definition rtrim :: "string \<Rightarrow> string" where
  "rtrim s = rev (dropWhile isspace (rev s))"

text \<open>\<open>std::string(char*)\<close> and \<open>c_str()\<close> read by C functions: the text up to the first
  NUL byte.\<close>

definition c_str :: "string \<Rightarrow> string" where
  "c_str s = takeWhile (\<lambda>c. c \<noteq> CHR 0x00) s"

text \<open>\<open>std::string::substr(pos, len)\<close> where the source guarantees \<open>pos \<le> size\<close>.\<close>

definition substr :: "string \<Rightarrow> nat \<Rightarrow> nat \<Rightarrow> string" where
  "substr s pos len = take len (drop pos s)"

definition digit_char :: "nat \<Rightarrow> char" where
  "digit_char d = ''0123456789'' ! d"

definition digit_val :: "char \<Rightarrow> nat" where
  "digit_val c = of_char c - 48"

text \<open>\<open>std::to_string\<close> and \<open>operator<<\<close> on an unsigned value: its decimal digits.\<close>

fun to_string :: "nat \<Rightarrow> string" where
  "to_string n = (if n < 10 then [digit_char n] else to_string (n div 10) @ [digit_char (n mod 10)])"

declare to_string.simps [simp del]

definition to_string_int :: "int \<Rightarrow> string" where
  "to_string_int i = (if i < 0 then CHR ''-'' # to_string (nat (- i)) else to_string (nat i))"

definition ULLONG_MAX :: nat where
  "ULLONG_MAX = 2 ^ 64 - 1"

text \<open>\<open>strtoull(s, NULL, 10)\<close>: white space is skipped, one sign is accepted, the longest run
  of digits is converted; no digits give 0, a value beyond the type gives \<open>ULLONG_MAX\<close>,
  a minus sign negates in the unsigned type.\<close>

definition strtoull :: "string \<Rightarrow> 64 word" where
  "strtoull s =
     (let s1 = dropWhile isspace (c_str s);
          neg = (case s1 of [] \<Rightarrow> False | c # r \<Rightarrow> c = CHR ''-'');
          s2 = (case s1 of [] \<Rightarrow> [] | c # r \<Rightarrow> if c = CHR ''-'' \<or> c = CHR ''+'' then r else s1);
          v = foldl (\<lambda>acc c. acc * 10 + digit_val c) 0 (takeWhile isdigit s2)
      in if v > ULLONG_MAX then word_of_nat ULLONG_MAX
         else if neg then - word_of_nat v else word_of_nat v)"

text \<open>\<open>strtoul\<close> returns \<open>unsigned long\<close>, 64 bits wide on the LP64 targets of the daemon.\<close>

definition strtoul :: "string \<Rightarrow> 64 word" where
  "strtoul s = strtoull s"

text \<open>\<open>f << std::right << std::setw(w) << s\<close>: padded on the left with spaces up to width
  \<open>w\<close>, never truncated.\<close>

definition rjust :: "nat \<Rightarrow> string \<Rightarrow> string" where
  "rjust w s = replicate (w - length s) sp @ s"

subsection \<open>Data model\<close>

text \<open>Modelled from the spec: config.h (SuspiciosAddressType, LogFile, LogGroup, Config) is
  not among the sources. The spec gives the fields; the widths are those of the conversions
  and of the columns of the file: lastActivity, bookmark and size are unsigned 64-bit
  (strtoull, 20 columns), the three counters unsigned 32-bit (10 columns).\<close>

record SuspiciosAddressType =
  lastActivity :: "64 word"
  activityScore :: "32 word"
  activityCount :: "32 word"
  refusedCount :: "32 word"
  whitelisted :: bool
  blacklisted :: bool
  iptableRule :: bool

record LogFile =
  path :: string
  bookmark :: "64 word"
  size_lf :: "64 word"

record LogGroup =
  name :: string
  logFiles :: "LogFile list"

record Config =
  dataFilePath :: string
  logGroups :: "LogGroup list"

datatype level = Debug | Info | Warning | Error

text \<open>The object \<open>hb::Data\<close>: the logger (its output, oldest message first), the
  configuration and the index \<open>std::map<std::string, SuspiciosAddressType>\<close>, kept as the
  list of its entries in key order, the order in which the map is iterated.\<close>

record Data =
  logger :: "(level \<times> string) list"
  config :: Config
  suspiciousAddresses :: "(string \<times> SuspiciosAddressType) list"

definition log_msg :: "level \<Rightarrow> string \<Rightarrow> Data \<Rightarrow> Data" where
  "log_msg lv m d = d\<lparr>logger := logger d @ [(lv, m)]\<rparr>"

text \<open>\<open>std::map::insert\<close>: an existing key is not overwritten; the flag tells whether the
  entry was inserted.\<close>

fun map_insert :: "string \<Rightarrow> 'v \<Rightarrow> (string \<times> 'v) list \<Rightarrow> (string \<times> 'v) list \<times> bool" where
  "map_insert k v [] = ([(k, v)], True)"
| "map_insert k v ((k', v') # m) =
     (if k = k' then ((k', v') # m, False)
      else if k < k' then ((k, v) # (k', v') # m, True)
      else (case map_insert k v m of (m', b) \<Rightarrow> ((k', v') # m', b)))"

definition value_init :: SuspiciosAddressType where
  "value_init = \<lparr>lastActivity = 0, activityScore = 0, activityCount = 0, refusedCount = 0,
     whitelisted = False, blacklisted = False, iptableRule = False\<rparr>"

text \<open>\<open>std::map::operator[]\<close>: a missing key is inserted with a value-initialised record.\<close>

definition map_index :: "string \<Rightarrow> Data \<Rightarrow> SuspiciosAddressType \<times> Data" where
  "map_index k d =
     (case map_of (suspiciousAddresses d) k of
        Some r \<Rightarrow> (r, d)
      | None \<Rightarrow> (value_init, d\<lparr>suspiciousAddresses := fst (map_insert k value_init (suspiciousAddresses d))\<rparr>))"

subsection \<open>The file system and the clock\<close>

record tm =
  tm_year :: int
  tm_mon :: int
  tm_mday :: int
  tm_hour :: int
  tm_min :: int
  tm_sec :: int

text \<open>What the store sees of its environment: the files by path, whether a path can be
  opened for reading and for writing, whether \<open>std::rename\<close> succeeds, and the local time.\<close>

record World =
  files :: "string \<Rightarrow> string option"
  can_read :: "string \<Rightarrow> bool"
  can_write :: "string \<Rightarrow> bool"
  rename_ok :: "string \<Rightarrow> string \<Rightarrow> bool"
  localtime_now :: tm

text \<open>\<open>std::getline\<close> until it fails: the text between newlines; a last line without
  newline is read when it is not empty.\<close>

fun getlines_from :: "string \<Rightarrow> string \<Rightarrow> string list" where
  "getlines_from cur [] = (if cur = [] then [] else [cur])"
| "getlines_from cur (c # cs) =
     (if c = nl then cur # getlines_from [] cs else getlines_from (cur @ [c]) cs)"

definition getlines :: "string \<Rightarrow> string list" where
  "getlines s = getlines_from [] s"


subsection \<open>Writing the store file\<close>

text \<open>The address line written by \<open>saveData\<close> and by \<open>addAddress\<close> (the two write the same
  sequence of fields).\<close>

definition address_record :: "string \<Rightarrow> SuspiciosAddressType \<Rightarrow> string" where
  "address_record address r =
     ''d'' @ rjust 39 address
     @ rjust 20 (to_string (unat (lastActivity r)))
     @ rjust 10 (to_string (unat (activityScore r)))
     @ rjust 10 (to_string (unat (activityCount r)))
     @ rjust 10 (to_string (unat (refusedCount r)))
     @ (if whitelisted r then ''y'' else ''n'')
     @ (if blacklisted r then ''y'' else ''n'')
     @ [nl]"

definition bookmark_record :: "LogFile \<Rightarrow> string" where
  "bookmark_record lf =
     ''b'' @ rjust 20 (to_string (unat (bookmark lf)))
     @ rjust 20 (to_string (unat (size_lf lf)))
     @ path lf
     @ [nl]"

definition saveData_text :: "Data \<Rightarrow> string" where
  "saveData_text d =
     concat (map (\<lambda>(address, r). address_record address r) (suspiciousAddresses d))
     @ concat (map (\<lambda>g. concat (map bookmark_record (logFiles g))) (logGroups (config d)))"

definition saveData :: "Data \<Rightarrow> World \<Rightarrow> bool \<times> Data \<times> World" where
  "saveData d0 w =
     (let d = log_msg Info (''Updating data in '' @ dataFilePath (config d0)) d0 in
      if can_write w (dataFilePath (config d))
      then (True, d, w\<lparr>files := (files w)(dataFilePath (config d) \<mapsto> saveData_text d)\<rparr>)
      else (False, log_msg Error ''Unable to open datafile for writting!'' d, w))"

definition addAddress :: "string \<Rightarrow> Data \<Rightarrow> World \<Rightarrow> bool \<times> Data \<times> World" where
  "addAddress address d0 w =
     (let d = log_msg Debug (''Adding record to '' @ dataFilePath (config d0) @ '', adding address '' @ address) d0;
          p = dataFilePath (config d) in
      if can_write w p
      then (case map_index address d of (r, d') \<Rightarrow>
              (True, d', w\<lparr>files := (files w)(p \<mapsto>
                 (case files w p of None \<Rightarrow> [] | Some old \<Rightarrow> old) @ address_record address r)\<rparr>))
      else (False, log_msg Error ''Unable to open datafile for writting!'' d, w))"

subsection \<open>The bookmark operations\<close>

definition addFile :: "string \<Rightarrow> Data \<Rightarrow> World \<Rightarrow> bool \<times> Data \<times> World" where
  "addFile filePath d w = (False, d, w)"

definition updateFile :: "string \<Rightarrow> Data \<Rightarrow> World \<Rightarrow> bool \<times> Data \<times> World" where
  "updateFile filePath d w = (False, d, w)"

definition removeFile :: "string \<Rightarrow> Data \<Rightarrow> World \<Rightarrow> bool \<times> Data \<times> World" where
  "removeFile filePath d w = (False, d, w)"

subsection \<open>Loading the store file\<close>

datatype error = OutOfRange

text \<open>The two nested loops of \<open>loadData\<close> over the log groups and their log files: the first
  log file with the path takes the bookmark and the size.\<close>

fun set_logFile :: "string \<Rightarrow> 64 word \<Rightarrow> 64 word \<Rightarrow> LogFile list \<Rightarrow> LogFile list \<times> bool" where
  "set_logFile p b s [] = ([], False)"
| "set_logFile p b s (f # fs) =
     (if path f = p then (f\<lparr>bookmark := b, size_lf := s\<rparr> # fs, True)
      else (case set_logFile p b s fs of (fs', found) \<Rightarrow> (f # fs', found)))"

fun set_logGroup :: "string \<Rightarrow> 64 word \<Rightarrow> 64 word \<Rightarrow> LogGroup list \<Rightarrow> LogGroup list \<times> bool" where
  "set_logGroup p b s [] = ([], False)"
| "set_logGroup p b s (g # gs) =
     (case set_logFile p b s (logFiles g) of (fs', found) \<Rightarrow>
        if found then (g\<lparr>logFiles := fs'\<rparr> # gs, True)
        else (case set_logGroup p b s gs of (gs', found') \<Rightarrow> (g # gs', found')))"

text \<open>The fields of a line of length 92 that starts with d, as the loader decodes them.\<close>

definition decode_address :: "string \<Rightarrow> string" where
  "decode_address line = ltrim (substr line 1 39)"

definition decode_data :: "string \<Rightarrow> SuspiciosAddressType" where
  "decode_data line =
     (let wl = (substr line 90 1 = ''y'');
          bl = (substr line 91 1 = ''y'')
      in \<lparr>lastActivity = strtoull (ltrim (substr line 40 20)),
          activityScore = ucast (strtoul (ltrim (substr line 60 10))),
          activityCount = ucast (strtoul (ltrim (substr line 70 10))),
          refusedCount = ucast (strtoul (ltrim (substr line 80 10))),
          whitelisted = wl,
          blacklisted = (if wl \<and> bl then False else bl),
          iptableRule = False\<rparr>)"

text \<open>The body of the loop \<open>while (getline(f, line))\<close>. The flag is \<open>duplicatesFound\<close>. In the
  branch of a bookmark, \<open>line.substr(21,20)\<close> and \<open>line.substr(41)\<close> throw
  \<open>std::out_of_range\<close> on a line shorter than their position; nothing catches it.\<close>

definition readLine :: "string \<Rightarrow> bool \<Rightarrow> Data \<Rightarrow> World \<Rightarrow> (error + bool) \<times> Data \<times> World" where
  "readLine line dup d w =
     (let recordType = substr line 0 1 in
      if recordType = ''d'' \<and> length line = 92 then
        (let address = decode_address line;
             data = decode_data line;
             d1 = (if substr line 90 1 = ''y'' \<and> substr line 91 1 = ''y''
                   then log_msg Warning (''Address '' @ address @ '' is in whitelist and at the same time in blacklist! Removing address from blacklist...'') d
                   else d)
         in case map_insert address data (suspiciousAddresses d1) of (m, inserted) \<Rightarrow>
              if \<not> inserted
              then (Inr True, log_msg Warning (''Address'' @ address @ '' is duplicated in data file, new datafile without duplicates will be created!'') (d1\<lparr>suspiciousAddresses := m\<rparr>), w)
              else (Inr dup, d1\<lparr>suspiciousAddresses := m\<rparr>, w))
      else if recordType = ''b'' then
        (if length line < 41 then (Inl OutOfRange, d, w)
         else
           (let bm = strtoull (ltrim (substr line 1 20));
                sz = strtoull (ltrim (substr line 21 20));
                logFilePath = rtrim (ltrim (drop 41 line))
            in case set_logGroup logFilePath bm sz (logGroups (config d)) of (gs, logFileFound) \<Rightarrow>
                 if logFileFound
                 then (Inr dup, log_msg Debug (''Bookmark: '' @ to_string (unat bm) @ '' Size: '' @ to_string (unat sz) @ '' Path: '' @ logFilePath) (d\<lparr>config := (config d)\<lparr>logGroups := gs\<rparr>\<rparr>), w)
                 else (case removeFile logFilePath (log_msg Warning (''Bookmark information in datafile for log file '' @ logFilePath @ '' found, but file not present in configuration. Removing from datafile...'') d) w of
                         (_, d', w') \<Rightarrow> (Inr dup, d', w'))))
      else (Inr dup, d, w))"

fun readLines :: "string list \<Rightarrow> bool \<Rightarrow> Data \<Rightarrow> World \<Rightarrow> (error + bool) \<times> Data \<times> World" where
  "readLines [] dup d w = (Inr dup, d, w)"
| "readLines (line # ls) dup d w =
     (case readLine line dup d w of
        (Inl e, d', w') \<Rightarrow> (Inl e, d', w')
      | (Inr dup', d', w') \<Rightarrow> readLines ls dup' d' w')"

definition pad2 :: "string \<Rightarrow> string" where
  "pad2 s = (if length s = 1 then ''0'' @ s else s)"

definition newDataFileName :: "string \<Rightarrow> tm \<Rightarrow> string" where
  "newDataFileName p itime =
     p @ ''_'' @ to_string_int (tm_year itime + 1900)
       @ pad2 (to_string_int (tm_mon itime + 1))
       @ pad2 (to_string_int (tm_mday itime))
       @ pad2 (to_string_int (tm_hour itime))
       @ pad2 (to_string_int (tm_min itime))
       @ pad2 (to_string_int (tm_sec itime))
       @ ''.bck''"

text \<open>The part of \<open>loadData\<close> after the file is closed, when \<open>duplicatesFound\<close> is set.\<close>

definition backup_and_save :: "Data \<Rightarrow> World \<Rightarrow> bool \<times> Data \<times> World" where
  "backup_and_save d w =
     (let p = dataFilePath (config d);
          newName = newDataFileName p (localtime_now w)
      in if files w newName = None then
           (if \<not> rename_ok w p newName
            then (False, log_msg Error ''Current data file contains duplicate entries and backup creation failed (file rename failure)!'' d, w)
            else (case saveData d (w\<lparr>files := (files w)(newName := files w p, p := None)\<rparr>) of
                    (saved, d', w') \<Rightarrow>
                      if \<not> saved
                      then (False, log_msg Error ''Current data file contains duplicate entries, renamed data file successfully, but failed to save new data file!'' d', w')
                      else (True, log_msg Warning (''Duplicate data found while reading data file! Old data file stored as '' @ newName @ '', new data file without duplicates saved! Merge manually if needed.'') d', w')))
         else (False, log_msg Error ''Current data file contains duplicate entries and backup creation failed (backup with same name already exists)!'' d, w))"

definition loadData :: "Data \<Rightarrow> World \<Rightarrow> (error + bool) \<times> Data \<times> World" where
  "loadData d0 w =
     (let d = log_msg Info (''Loading data from '' @ dataFilePath (config d0)) d0;
          p = dataFilePath (config d)
      in if files w p \<noteq> None \<and> can_read w p then
           (case readLines (getlines (the (files w p))) False (d\<lparr>suspiciousAddresses := []\<rparr>) w of
              (Inl e, d', w') \<Rightarrow> (Inl e, d', w')
            | (Inr dup, d', w') \<Rightarrow>
                (case (if dup then backup_and_save d' w' else (True, d', w')) of
                   (ok, d'', w'') \<Rightarrow>
                     if \<not> ok then (Inr False, d'', w'')
                     else (Inr True, log_msg Info (''Loaded '' @ to_string (length (suspiciousAddresses d'')) @ '' IP address record(s)'') d'', w'')))
         else
           (case saveData (log_msg Warning ''Unable to open datafile for reading!'' d) w of
              (saved, d', w') \<Rightarrow>
                if \<not> saved then (Inr False, log_msg Error ''Unable to create new empty data file!'' d', w')
                else (Inr True, d', w')))"


subsection \<open>The file stream of the point operations\<close>

text \<open>A \<open>std::fstream\<close> opened for reading and writing: the bytes of the file, the one
  position of the file buffer, and the state bits \<open>eofbit\<close> and \<open>failbit\<close>.\<close>

record fstream =
  content :: string
  pos :: nat
  eofbit :: bool
  failbit :: bool

definition good :: "fstream \<Rightarrow> bool" where
  "good f = (\<not> eofbit f \<and> \<not> failbit f)"

definition fopen :: "string \<Rightarrow> fstream" where
  "fopen s = \<lparr>content = s, pos = 0, eofbit = False, failbit = False\<rparr>"

text \<open>\<open>f.get(c)\<close>: one byte, or failure at the end of the file or on a stream that is not
  good.\<close>

definition get_char :: "fstream \<Rightarrow> char option \<times> fstream" where
  "get_char f =
     (if \<not> good f then (None, f\<lparr>failbit := True\<rparr>)
      else if pos f < length (content f) then (Some (content f ! pos f), f\<lparr>pos := pos f + 1\<rparr>)
      else (None, f\<lparr>eofbit := True, failbit := True\<rparr>))"

text \<open>\<open>f.get(buf, n)\<close>: at most \<open>n - 1\<close> bytes, up to and without the next newline. The
  library looks at the byte after the last one it stores: \<open>eofbit\<close> is set when that is the
  end of the file, also after \<open>n - 1\<close> bytes; \<open>failbit\<close> when no byte is stored.\<close>

definition get_str :: "nat \<Rightarrow> fstream \<Rightarrow> string \<times> fstream" where
  "get_str n f =
     (if \<not> good f then ([], f\<lparr>failbit := True\<rparr>)
      else
        (let got = takeWhile (\<lambda>c. c \<noteq> nl) (take (n - 1) (drop (pos f) (content f)))
         in (got, f\<lparr>pos := pos f + length got,
                    eofbit := (length (content f) \<le> pos f + length got),
                    failbit := (got = [])\<rparr>)))"

text \<open>\<open>f.seekg(off, f.cur)\<close>: clears \<open>eofbit\<close>, does nothing on a failed stream, fails
  before the start of the file and may go beyond its end.\<close>

definition seekg_cur :: "int \<Rightarrow> fstream \<Rightarrow> fstream" where
  "seekg_cur off f =
     (let f1 = f\<lparr>eofbit := False\<rparr> in
      if failbit f1 then f1
      else if int (pos f1) + off < 0 then f1\<lparr>failbit := True\<rparr>
      else f1\<lparr>pos := nat (int (pos f1) + off)\<rparr>)"

text \<open>\<open>f << s\<close>: on a good stream the bytes replace those at the position and extend the
  file at its end; on any other stream nothing is written.\<close>

definition put_str :: "string \<Rightarrow> fstream \<Rightarrow> fstream" where
  "put_str s f =
     (if \<not> good f then f\<lparr>failbit := True\<rparr>
      else f\<lparr>content :=
                (if pos f \<le> length (content f)
                 then take (pos f) (content f) @ s @ drop (pos f + length s) (content f)
                 else content f @ replicate (pos f - length (content f)) (CHR 0x00) @ s),
              pos := pos f + length s\<rparr>)"

lemma get_char_Some:
  "get_char f = (Some c, f') \<Longrightarrow>
     good f \<and> pos f < length (content f) \<and> c = content f ! pos f \<and> f' = f\<lparr>pos := pos f + 1\<rparr>"
  by (auto simp: get_char_def split: if_splits)

text \<open>The inner loop \<open>while (f.get(c)) { if (c == '\n') break; }\<close>.\<close>

function skip_to_newline :: "fstream \<Rightarrow> fstream" where
  "skip_to_newline f =
     (case get_char f of
        (None, f') \<Rightarrow> f'
      | (Some c, f') \<Rightarrow> if c = nl then f' else skip_to_newline f')"
  by pat_completeness auto
termination
  by (relation "measure (\<lambda>f. length (content f) - pos f)") (auto dest!: get_char_Some [OF sym])

declare skip_to_newline.simps [simp del]

lemma skip_to_newline_content: "content (skip_to_newline f) = content f"
proof (induction f rule: skip_to_newline.induct)
  case (1 f)
  show ?case
  proof (cases "get_char f")
    case (Pair r f')
    show ?thesis
    proof (cases r)
      case None
      with Pair show ?thesis
        by (subst skip_to_newline.simps) (auto simp: get_char_def split: if_splits)
    next
      case (Some c)
      with Pair have f': "f' = f\<lparr>pos := pos f + 1\<rparr>" by (auto dest: get_char_Some)
      show ?thesis
      proof (cases "c = nl")
        case True
        with Pair Some f' show ?thesis by (subst skip_to_newline.simps) simp
      next
        case False
        from "1.IH" [OF Pair [symmetric] Some False] have "content (skip_to_newline f') = content f'" .
        with Pair Some f' False show ?thesis by (subst skip_to_newline.simps) simp
      qed
    qed
  qed
qed

lemma skip_to_newline_pos: "failbit (skip_to_newline f) \<or> pos f < pos (skip_to_newline f)"
proof (induction f rule: skip_to_newline.induct)
  case (1 f)
  show ?case
  proof (cases "get_char f")
    case (Pair r f')
    show ?thesis
    proof (cases r)
      case None
      with Pair show ?thesis
        by (subst (1 2) skip_to_newline.simps) (auto simp: get_char_def split: if_splits)
    next
      case (Some c)
      with Pair have f': "f' = f\<lparr>pos := pos f + 1\<rparr>" by (auto dest: get_char_Some)
      show ?thesis
      proof (cases "c = nl")
        case True
        with Pair Some f' show ?thesis by (subst (1 2) skip_to_newline.simps) simp
      next
        case False
        from "1.IH" [OF Pair [symmetric] Some False]
        have "failbit (skip_to_newline f') \<or> pos f' < pos (skip_to_newline f')" .
        with Pair Some f' False show ?thesis by (subst (1 2) skip_to_newline.simps) auto
      qed
    qed
  qed
qed

text \<open>The measure of the scanning loops: the bytes left on a stream that has not failed.\<close>

definition bytes_left :: "fstream \<Rightarrow> nat" where
  "bytes_left f = (if failbit f then 0 else Suc (length (content f)) - pos f)"

lemma bytes_left_d:
  assumes "get_char f = (Some c, f1)" and "get_str 40 f1 = (a, f2)"
  shows "bytes_left (seekg_cur 53 f2) < bytes_left f"
proof -
  from assms(1) have g: "good f" "pos f < length (content f)" "f1 = f\<lparr>pos := pos f + 1\<rparr>"
    by (auto dest: get_char_Some)
  from assms(2) g have "content f2 = content f" "pos f < pos f2"
    by (auto simp: get_str_def good_def Let_def split: if_splits)
  with g show ?thesis
    by (auto simp: bytes_left_def seekg_cur_def good_def Let_def)
qed

lemma bytes_left_other:
  assumes "get_char f = (Some c, f1)"
  shows "bytes_left (skip_to_newline (seekg_cur 41 f1)) < bytes_left f"
proof -
  from assms have g: "good f" "pos f < length (content f)" "f1 = f\<lparr>pos := pos f + 1\<rparr>"
    by (auto dest: get_char_Some)
  let ?s = "seekg_cur 41 f1"
  from g have s: "content ?s = content f" "pos ?s = pos f + 42"
    by (auto simp: seekg_cur_def good_def Let_def)
  from skip_to_newline_pos [of ?s] skip_to_newline_content [of ?s] s g show ?thesis
    by (auto simp: bytes_left_def good_def)
qed

subsection \<open>Updating and removing an address\<close>

text \<open>The fields that \<open>updateAddress\<close> writes after the address, one insertion each.\<close>

definition put_payload :: "SuspiciosAddressType \<Rightarrow> fstream \<Rightarrow> fstream" where
  "put_payload r f =
     put_str [nl]
       (put_str (if blacklisted r then ''y'' else ''n'')
         (put_str (if whitelisted r then ''y'' else ''n'')
           (put_str (rjust 10 (to_string (unat (refusedCount r))))
             (put_str (rjust 10 (to_string (unat (activityCount r))))
               (put_str (rjust 10 (to_string (unat (activityScore r))))
                 (put_str (rjust 20 (to_string (unat (lastActivity r)))) f))))))"

text \<open>The loop \<open>while (f.get(c))\<close> of \<open>updateAddress\<close>; the flag is \<open>recordFound\<close>.\<close>

function update_scan :: "string \<Rightarrow> Data \<Rightarrow> fstream \<Rightarrow> bool \<times> Data \<times> fstream" where
  "update_scan address d f =
     (case get_char f of
        (None, f1) \<Rightarrow> (False, d, f1)
      | (Some c, f1) \<Rightarrow>
          if c = CHR ''d'' then
            (case get_str 40 f1 of (fAddress, f2) \<Rightarrow>
               if ltrim (c_str fAddress) = address
               then (case map_index address d of (r, d') \<Rightarrow> (True, d', put_payload r f2))
               else update_scan address d (seekg_cur 53 f2))
          else update_scan address d (skip_to_newline (seekg_cur 41 f1)))"
  by pat_completeness auto
termination
  by (relation "measure (\<lambda>(address, d, f). bytes_left f)")
     (auto intro: bytes_left_d [OF sym sym] bytes_left_other [OF sym])

declare update_scan.simps [simp del]

text \<open>The loop of \<open>removeAddress\<close>.\<close>

function remove_scan :: "string \<Rightarrow> fstream \<Rightarrow> bool \<times> fstream" where
  "remove_scan address f =
     (case get_char f of
        (None, f1) \<Rightarrow> (False, f1)
      | (Some c, f1) \<Rightarrow>
          if c = CHR ''d'' then
            (case get_str 40 f1 of (fAddress, f2) \<Rightarrow>
               if ltrim (c_str fAddress) = address
               then (True, put_str ''r'' (seekg_cur (- 40) f2))
               else remove_scan address (seekg_cur 53 f2))
          else remove_scan address (skip_to_newline (seekg_cur 41 f1)))"
  by pat_completeness auto
termination
  by (relation "measure (\<lambda>(address, f). bytes_left f)")
     (auto intro: bytes_left_d [OF sym sym] bytes_left_other [OF sym])

declare remove_scan.simps [simp del]

definition updateAddress :: "string \<Rightarrow> Data \<Rightarrow> World \<Rightarrow> bool \<times> Data \<times> World" where
  "updateAddress address d0 w =
     (let d = log_msg Debug (''Updating record in '' @ dataFilePath (config d0) @ '', updating address '' @ address) d0;
          p = dataFilePath (config d)
      in if files w p \<noteq> None \<and> can_read w p \<and> can_write w p then
           (case update_scan address d (fopen (the (files w p))) of
              (recordFound, d', f) \<Rightarrow>
                if \<not> recordFound
                then (False, log_msg Error (''Unable to update '' @ address @ '' in data file, record not found in data file!'') d',
                      w\<lparr>files := (files w)(p \<mapsto> content f)\<rparr>)
                else (True, d', w\<lparr>files := (files w)(p \<mapsto> content f)\<rparr>))
         else (False, log_msg Error ''Unable to open datafile for update!'' d, w))"

definition removeAddress :: "string \<Rightarrow> Data \<Rightarrow> World \<Rightarrow> bool \<times> Data \<times> World" where
  "removeAddress address d0 w =
     (let d = log_msg Debug (''Removing record from '' @ dataFilePath (config d0) @ '', removing address '' @ address) d0;
          p = dataFilePath (config d)
      in if files w p \<noteq> None \<and> can_read w p \<and> can_write w p then
           (case remove_scan address (fopen (the (files w p))) of
              (recordFound, f) \<Rightarrow>
                if \<not> recordFound
                then (False, log_msg Error (''Tried removing address '' @ address @ '' from datafile, but record is not present in datafile!'') d,
                      w\<lparr>files := (files w)(p \<mapsto> content f)\<rparr>)
                else (True, d, w\<lparr>files := (files w)(p \<mapsto> content f)\<rparr>))
         else (False, log_msg Error ''Unable to open datafile for update!'' d, w))"



subsection \<open>Auxiliary notions and example inputs\<close>

text \<open>What \<open>f.get(fAddress, 40)\<close> reads at a position of a file: at most 39 bytes, up to the
  next newline.\<close>

definition address_field_at :: "string \<Rightarrow> nat \<Rightarrow> string" where
  "address_field_at text n = takeWhile (\<lambda>c. c \<noteq> nl) (take 39 (drop n text))"

text \<open>The positions at which the scanning loops of \<open>updateAddress\<close> and \<open>removeAddress\<close>
  read a type byte, whatever the target: after a d, the address field and 53 bytes further;
  after any other byte, 41 bytes further and past the next newline. The list ends at the end
  of the file, after a d with no byte of address field, and when no newline follows.\<close>

function scan_positions :: "string \<Rightarrow> nat \<Rightarrow> nat list" where
  "scan_positions text n =
     (if length text \<le> n then []
      else if text ! n = CHR ''d'' then
        (if address_field_at text (n + 1) = [] then [n]
         else n # scan_positions text (n + 1 + length (address_field_at text (n + 1)) + 53))
      else if nl \<in> set (drop (n + 42) text)
        then n # scan_positions text (n + 42 + length (takeWhile (\<lambda>c. c \<noteq> nl) (drop (n + 42) text)) + 1)
        else [n])"
  by pat_completeness auto
termination
  by (relation "measure (\<lambda>(text, n). length text - n)") auto

declare scan_positions.simps [simp del]

text \<open>A position where the scan finds the record of an address: a d followed by an address
  field that, trimmed, is the address.\<close>

definition match_at :: "string \<Rightarrow> string \<Rightarrow> nat \<Rightarrow> bool" where
  "match_at address text n =
     (text ! n = CHR ''d'' \<and> ltrim (c_str (address_field_at text (n + 1))) = address)"

text \<open>The lines that the loader takes for an address record, those with both flag bytes set,
  and the warning it logs for them.\<close>

definition live_address_line :: "string \<Rightarrow> bool" where
  "live_address_line line = (substr line 0 1 = ''d'' \<and> length line = 92)"

definition both_flags_set :: "string \<Rightarrow> bool" where
  "both_flags_set line = (substr line 90 1 = ''y'' \<and> substr line 91 1 = ''y'')"

definition whitelist_warning :: "string \<Rightarrow> level \<times> string" where
  "whitelist_warning address = (Warning, ''Address '' @ address @ '' is in whitelist and at the same time in blacklist! Removing address from blacklist...'')"

text \<open>A file as the sequence of its lines, each with its newline.\<close>

definition file_of_lines :: "string list \<Rightarrow> string" where
  "file_of_lines ls = concat (map (\<lambda>l. l @ [nl]) ls)"




text \<open>The lines that keep the byte-wise scan for an address on the line boundaries: a line
  without newline inside that is either a d line of 92 bytes whose address field is not the
  target, or a line of another type of at least 42 bytes (the type byte and the 41 bytes that
  the scan skips before it looks for the newline). A matching line is a d line of 92 bytes
  whose address field is the target.\<close>

definition skippable :: "string \<Rightarrow> string \<Rightarrow> bool" where
  "skippable address line =
     (nl \<notin> set line
      \<and> (if substr line 0 1 = ''d''
         then length line = 92 \<and> ltrim (c_str (substr line 1 39)) \<noteq> address
         else 42 \<le> length line))"

definition matching_line :: "string \<Rightarrow> string \<Rightarrow> bool" where
  "matching_line address line =
     (nl \<notin> set line \<and> substr line 0 1 = ''d'' \<and> length line = 92
      \<and> ltrim (c_str (substr line 1 39)) = address)"

text \<open>The bytes that \<open>updateAddress\<close> writes after the address field.\<close>

definition payload_text :: "SuspiciosAddressType \<Rightarrow> string" where
  "payload_text r =
     rjust 20 (to_string (unat (lastActivity r)))
     @ rjust 10 (to_string (unat (activityScore r)))
     @ rjust 10 (to_string (unat (activityCount r)))
     @ rjust 10 (to_string (unat (refusedCount r)))
     @ (if whitelisted r then ''y'' else ''n'')
     @ (if blacklisted r then ''y'' else ''n'')
     @ [nl]"

text \<open>A good stream at a position.\<close>

definition stream_at :: "string \<Rightarrow> nat \<Rightarrow> fstream" where
  "stream_at c n = \<lparr>content = c, pos = n, eofbit = False, failbit = False\<rparr>"

text \<open>A configuration without log files, an object with a given index, a file system that
  holds the store file alone and permits everything, and a record.\<close>

definition ex_config :: Config where
  "ex_config = \<lparr>dataFilePath = ''/hb.data'', logGroups = []\<rparr>"

definition ex_data :: "(string \<times> SuspiciosAddressType) list \<Rightarrow> Data" where
  "ex_data idx = \<lparr>logger = [], config = ex_config, suspiciousAddresses = idx\<rparr>"

definition ex_world :: "string \<Rightarrow> World" where
  "ex_world text = \<lparr>files = [''/hb.data'' \<mapsto> text], can_read = (\<lambda>p. True), can_write = (\<lambda>p. True),
     rename_ok = (\<lambda>p q. True),
     localtime_now = \<lparr>tm_year = 126, tm_mon = 9, tm_mday = 30, tm_hour = 7, tm_min = 5, tm_sec = 0\<rparr>\<rparr>"

definition ex_record :: SuspiciosAddressType where
  "ex_record = \<lparr>lastActivity = 1500000000, activityScore = 7, activityCount = 3, refusedCount = 0,
     whitelisted = False, blacklisted = True, iptableRule = False\<rparr>"

definition ex_tombstone :: string where
  "ex_tombstone = ''r                                1.2.3.4          1500000000         7         3         0ny'' @ [nl]"

definition ex_line :: string where
  "ex_line = ''d                                1.2.3.4          1500000000         7         3         0yy''"

definition ex_bookmark :: string where
  "ex_bookmark = ''b                   5                   9/var/log/auth.log''"

definition ex_partial :: string where
  "ex_partial = ''d1.2.3.4'' @ [nl] @ ex_line @ [nl]"

text \<open>A store file that holds the partial line d1.2.3.4 alone, and one that holds a bookmark
  line whose path ends with d1.2.3.4.\<close>

definition ex_short :: string where
  "ex_short = ''d1.2.3.4'' @ [nl]"

definition ex_embedded :: string where
  "ex_embedded = ''b                   5                   9/d1.2.3.4'' @ [nl]"




section \<open>Properties\<close>

subsection \<open>The scanning loops\<close>

lemma log_msg_simps [simp]:
  "config (log_msg lv m d) = config d"
  "suspiciousAddresses (log_msg lv m d) = suspiciousAddresses d"
  "logger (log_msg lv m d) = logger d @ [(lv, m)]"
  by (simp_all add: log_msg_def)

lemma get_char_content: "get_char f = (r, f') \<Longrightarrow> content f' = content f"
  by (auto simp: get_char_def split: if_splits)

lemma get_str_content: "get_str n f = (s, f') \<Longrightarrow> content f' = content f"
  by (auto simp: get_str_def Let_def split: if_splits)

lemma seekg_cur_content [simp]: "content (seekg_cur off f) = content f"
  by (simp add: seekg_cur_def Let_def)

lemma get_str_after_get_char:
  assumes "get_char f = (Some c, f1)" and "get_str 40 f1 = (a, f2)"
  shows "a = address_field_at (content f) (pos f + 1)"
  using assms by (auto simp: get_str_def get_char_def good_def Let_def address_field_at_def split: if_splits)

lemma update_scan_False:
  "update_scan a d f = (False, d', f') \<Longrightarrow> d' = d \<and> content f' = content f"
proof (induction a d f rule: update_scan.induct)
  case (1 address d f)
  show ?case
  proof (cases "get_char f")
    case (Pair r f1)
    show ?thesis
    proof (cases r)
      case None
      with Pair "1.prems" show ?thesis
        by (subst (asm) update_scan.simps) (auto dest: get_char_content)
    next
      case (Some c)
      show ?thesis
      proof (cases "c = CHR ''d''")
        case True
        obtain fa f2 where g: "get_str 40 f1 = (fa, f2)" by (cases "get_str 40 f1")
        show ?thesis
        proof (cases "ltrim (c_str fa) = address")
          case m: True
          with Pair Some True g "1.prems" show ?thesis
            by (subst (asm) update_scan.simps) (auto split: prod.splits)
        next
          case m: False
          with Pair Some True g "1.prems"
          have "update_scan address d (seekg_cur 53 f2) = (False, d', f')"
            by (subst (asm) update_scan.simps) auto
          from "1.IH"(1) [OF Pair [symmetric] Some True g [symmetric] m this]
          show ?thesis using get_char_content [OF Pair] get_str_content [OF g] by simp
        qed
      next
        case False
        with Pair Some "1.prems"
        have "update_scan address d (skip_to_newline (seekg_cur 41 f1)) = (False, d', f')"
          by (subst (asm) update_scan.simps) auto
        from "1.IH"(2) [OF Pair [symmetric] Some False this]
        show ?thesis using get_char_content [OF Pair] by (simp add: skip_to_newline_content)
      qed
    qed
  qed
qed

lemma remove_scan_content_False:
  "remove_scan a f = (False, f') \<Longrightarrow> content f' = content f"
proof (induction a f rule: remove_scan.induct)
  case (1 address f)
  show ?case
  proof (cases "get_char f")
    case (Pair r f1)
    show ?thesis
    proof (cases r)
      case None
      with Pair "1.prems" show ?thesis
        by (subst (asm) remove_scan.simps) (auto dest: get_char_content)
    next
      case (Some c)
      show ?thesis
      proof (cases "c = CHR ''d''")
        case True
        obtain fa f2 where g: "get_str 40 f1 = (fa, f2)" by (cases "get_str 40 f1")
        show ?thesis
        proof (cases "ltrim (c_str fa) = address")
          case m: True
          with Pair Some True g "1.prems" show ?thesis
            by (subst (asm) remove_scan.simps) (auto split: prod.splits)
        next
          case m: False
          with Pair Some True g "1.prems"
          have "remove_scan address (seekg_cur 53 f2) = (False, f')"
            by (subst (asm) remove_scan.simps) auto
          from "1.IH"(1) [OF Pair [symmetric] Some True g [symmetric] m this]
          show ?thesis using get_char_content [OF Pair] get_str_content [OF g] by simp
        qed
      next
        case False
        with Pair Some "1.prems"
        have "remove_scan address (skip_to_newline (seekg_cur 41 f1)) = (False, f')"
          by (subst (asm) remove_scan.simps) auto
        from "1.IH"(2) [OF Pair [symmetric] Some False this]
        show ?thesis using get_char_content [OF Pair] by (simp add: skip_to_newline_content)
      qed
    qed
  qed
qed

lemma update_scan_no_match:
  assumes "\<forall>n < length (content f). content f ! n = CHR ''d'' \<longrightarrow> ltrim (c_str (address_field_at (content f) (n + 1))) \<noteq> a"
  shows "fst (update_scan a d f) = False"
  using assms
proof (induction a d f rule: update_scan.induct)
  case (1 address d f)
  show ?case
  proof (cases "get_char f")
    case (Pair r f1)
    show ?thesis
    proof (cases r)
      case None
      with Pair show ?thesis by (subst update_scan.simps) simp
    next
      case (Some c)
      show ?thesis
      proof (cases "c = CHR ''d''")
        case True
        obtain fa f2 where g: "get_str 40 f1 = (fa, f2)" by (cases "get_str 40 f1")
        from Pair Some have gc: "pos f < length (content f)" "c = content f ! pos f"
          by (auto dest: get_char_Some)
        from get_str_after_get_char Pair Some g have "fa = address_field_at (content f) (pos f + 1)"
          by blast
        with gc True "1.prems" have m: "ltrim (c_str fa) \<noteq> address" by auto
        from "1.prems" get_char_content [OF Pair] get_str_content [OF g]
        have "fst (update_scan address d (seekg_cur 53 f2)) = False"
          by (intro "1.IH"(1) [OF Pair [symmetric] Some True g [symmetric] m]) simp
        with Pair Some True g m show ?thesis by (subst update_scan.simps) simp
      next
        case False
        from "1.prems" get_char_content [OF Pair]
        have "fst (update_scan address d (skip_to_newline (seekg_cur 41 f1))) = False"
          by (intro "1.IH"(2) [OF Pair [symmetric] Some False]) (simp add: skip_to_newline_content)
        with Pair Some False show ?thesis by (subst update_scan.simps) simp
      qed
    qed
  qed
qed

lemma remove_scan_no_match:
  assumes "\<forall>n < length (content f). content f ! n = CHR ''d'' \<longrightarrow> ltrim (c_str (address_field_at (content f) (n + 1))) \<noteq> a"
  shows "fst (remove_scan a f) = False"
  using assms
proof (induction a f rule: remove_scan.induct)
  case (1 address f)
  show ?case
  proof (cases "get_char f")
    case (Pair r f1)
    show ?thesis
    proof (cases r)
      case None
      with Pair show ?thesis by (subst remove_scan.simps) simp
    next
      case (Some c)
      show ?thesis
      proof (cases "c = CHR ''d''")
        case True
        obtain fa f2 where g: "get_str 40 f1 = (fa, f2)" by (cases "get_str 40 f1")
        from Pair Some have gc: "pos f < length (content f)" "c = content f ! pos f"
          by (auto dest: get_char_Some)
        from get_str_after_get_char Pair Some g have "fa = address_field_at (content f) (pos f + 1)"
          by blast
        with gc True "1.prems" have m: "ltrim (c_str fa) \<noteq> address" by auto
        from "1.prems" get_char_content [OF Pair] get_str_content [OF g]
        have "fst (remove_scan address (seekg_cur 53 f2)) = False"
          by (intro "1.IH"(1) [OF Pair [symmetric] Some True g [symmetric] m]) simp
        with Pair Some True g m show ?thesis by (subst remove_scan.simps) simp
      next
        case False
        from "1.prems" get_char_content [OF Pair]
        have "fst (remove_scan address (skip_to_newline (seekg_cur 41 f1))) = False"
          by (intro "1.IH"(2) [OF Pair [symmetric] Some False]) (simp add: skip_to_newline_content)
        with Pair Some False show ?thesis by (subst remove_scan.simps) simp
      qed
    qed
  qed
qed

lemma updateAddress_opened:
  assumes "files w (dataFilePath (config d)) = Some t"
    and "can_read w (dataFilePath (config d))" and "can_write w (dataFilePath (config d))"
    and "update_scan address (log_msg Debug (''Updating record in '' @ dataFilePath (config d) @ '', updating address '' @ address) d) (fopen t) = (b, d', f')"
  shows "updateAddress address d w =
     (if \<not> b then (False, log_msg Error (''Unable to update '' @ address @ '' in data file, record not found in data file!'') d',
                    w\<lparr>files := (files w)(dataFilePath (config d) \<mapsto> content f')\<rparr>)
      else (True, d', w\<lparr>files := (files w)(dataFilePath (config d) \<mapsto> content f')\<rparr>))"
  using assms unfolding updateAddress_def Let_def by simp

lemma removeAddress_opened:
  assumes "files w (dataFilePath (config d)) = Some t"
    and "can_read w (dataFilePath (config d))" and "can_write w (dataFilePath (config d))"
    and "remove_scan address (fopen t) = (b, f')"
  shows "removeAddress address d w =
     (if \<not> b then (False, log_msg Error (''Tried removing address '' @ address @ '' from datafile, but record is not present in datafile!'')
                      (log_msg Debug (''Removing record from '' @ dataFilePath (config d) @ '', removing address '' @ address) d),
                    w\<lparr>files := (files w)(dataFilePath (config d) \<mapsto> content f')\<rparr>)
      else (True, log_msg Debug (''Removing record from '' @ dataFilePath (config d) @ '', removing address '' @ address) d,
            w\<lparr>files := (files w)(dataFilePath (config d) \<mapsto> content f')\<rparr>))"
  using assms unfolding removeAddress_def Let_def by simp

lemma point_operation_not_opened:
  assumes "\<not> (files w (dataFilePath (config d)) \<noteq> None \<and> can_read w (dataFilePath (config d)) \<and> can_write w (dataFilePath (config d)))"
  shows "updateAddress address d w = (False, log_msg Error ''Unable to open datafile for update!'' (log_msg Debug (''Updating record in '' @ dataFilePath (config d) @ '', updating address '' @ address) d), w)"
    and "removeAddress address d w = (False, log_msg Error ''Unable to open datafile for update!'' (log_msg Debug (''Removing record from '' @ dataFilePath (config d) @ '', removing address '' @ address) d), w)"
  using assms unfolding updateAddress_def removeAddress_def Let_def by auto


subsection \<open>Decimal numbers and padded fields\<close>

lemma digit_char_props:
  assumes "d < 10"
  shows "of_char (digit_char d) = 48 + d" and "digit_val (digit_char d) = d"
    and "isdigit (digit_char d)" and "\<not> isspace (digit_char d)"
    and "digit_char d \<noteq> CHR 0x00" and "digit_char d \<noteq> nl"
    and "digit_char d \<noteq> CHR ''-''" and "digit_char d \<noteq> CHR ''+''"
proof -
  from assms have "d \<in> {0, 1, 2, 3, 4, 5, 6, 7, 8, 9}" by auto
  then show "of_char (digit_char d) = 48 + d" and "digit_val (digit_char d) = d"
    and "isdigit (digit_char d)" and "\<not> isspace (digit_char d)"
    and "digit_char d \<noteq> CHR 0x00" and "digit_char d \<noteq> nl"
    and "digit_char d \<noteq> CHR ''-''" and "digit_char d \<noteq> CHR ''+''"
    by (auto simp: digit_char_def digit_val_def isdigit_def isspace_def)
qed

lemma to_string_nonempty: "to_string n \<noteq> []"
  by (subst to_string.simps) simp

lemma to_string_chars:
  "c \<in> set (to_string n) \<Longrightarrow> isdigit c \<and> \<not> isspace c \<and> c \<noteq> CHR 0x00 \<and> c \<noteq> nl \<and> c \<noteq> CHR ''-'' \<and> c \<noteq> CHR ''+''"
proof (induction n rule: to_string.induct)
  case (1 n)
  show ?case
  proof (cases "n < 10")
    case True
    with "1.prems" have "c = digit_char n" by (subst (asm) to_string.simps) simp
    with True digit_char_props [of n] show ?thesis by simp
  next
    case False
    with "1.prems" have "c \<in> set (to_string (n div 10)) \<or> c = digit_char (n mod 10)"
      by (subst (asm) to_string.simps) auto
    with "1.IH" [OF False] digit_char_props [of "n mod 10"] show ?thesis by auto
  qed
qed

lemma to_string_length: "0 < k \<Longrightarrow> n < 10 ^ k \<Longrightarrow> length (to_string n) \<le> k"
proof (induction n arbitrary: k rule: to_string.induct)
  case (1 n)
  show ?case
  proof (cases "n < 10")
    case True
    with "1.prems" show ?thesis by (subst to_string.simps) simp
  next
    case False
    with "1.prems" have k: "1 < k" by (cases "k = 1") auto
    then obtain k' where k': "k = Suc k'" "0 < k'" by (cases k) auto
    with "1.prems" have "n div 10 < 10 ^ k'" by (simp add: less_mult_imp_div_less mult.commute)
    from "1.IH" [OF False k'(2) this] k' False show ?thesis
      by (subst to_string.simps) simp
  qed
qed

lemma to_string_value: "foldl (\<lambda>acc c. acc * 10 + digit_val c) 0 (to_string n) = n"
proof (induction n rule: to_string.induct)
  case (1 n)
  show ?case
  proof (cases "n < 10")
    case True
    then show ?thesis by (subst to_string.simps) (simp add: digit_char_props)
  next
    case False
    with "1.IH" show ?thesis
      by (subst to_string.simps) (simp add: digit_char_props)
  qed
qed

lemma ltrim_rjust:
  assumes "s \<noteq> []" and "\<not> isspace (hd s)"
  shows "ltrim (rjust k s) = s"
proof -
  have "dropWhile isspace (replicate m sp @ s) = s" for m
    using assms by (induction m) (auto simp: isspace_def dropWhile_eq_self_iff)
  then show ?thesis by (simp add: ltrim_def rjust_def)
qed

lemma rjust_length: "length s \<le> k \<Longrightarrow> length (rjust k s) = k"
  by (simp add: rjust_def)

lemma strtoull_to_string:
  assumes "n \<le> ULLONG_MAX"
  shows "strtoull (to_string n) = word_of_nat n"
proof -
  let ?s = "to_string n"
  have ne: "?s \<noteq> []" by (rule to_string_nonempty)
  have ch: "\<forall>c \<in> set ?s. isdigit c \<and> \<not> isspace c \<and> c \<noteq> CHR 0x00 \<and> c \<noteq> nl \<and> c \<noteq> CHR ''-'' \<and> c \<noteq> CHR ''+''"
    using to_string_chars by blast
  then have c: "c_str ?s = ?s" by (auto simp: c_str_def takeWhile_eq_all_conv)
  from ne ch have "\<not> isspace (hd ?s)" by (cases ?s) auto
  then have d: "dropWhile isspace ?s = ?s" using ne by (simp add: dropWhile_eq_self_iff)
  from ne obtain c r where cr: "?s = c # r" by (cases ?s) auto
  with ch have sg: "c \<noteq> CHR ''-''" "c \<noteq> CHR ''+''" by auto
  from ch have t: "takeWhile isdigit ?s = ?s" by (auto simp: takeWhile_eq_all_conv)
  have v: "foldl (\<lambda>acc c. acc * 10 + digit_val c) 0 ?s = n" by (rule to_string_value)
  have neg: "(case ?s of [] \<Rightarrow> False | c # r \<Rightarrow> c = CHR ''-'') = False"
    using cr sg by simp
  have s2: "(case ?s of [] \<Rightarrow> [] | c # r \<Rightarrow> if c = CHR ''-'' \<or> c = CHR ''+'' then r else ?s) = ?s"
    using cr sg by simp
  show ?thesis
    unfolding strtoull_def c d Let_def neg s2 t v
    using assms by simp
qed

lemma decode_number:
  assumes "n \<le> ULLONG_MAX"
  shows "strtoull (ltrim (rjust k (to_string n))) = word_of_nat n"
proof -
  have "\<not> isspace (hd (to_string n))"
    using to_string_nonempty [of n] to_string_chars [of "hd (to_string n)" n] by simp
  with to_string_nonempty have "ltrim (rjust k (to_string n)) = to_string n"
    by (intro ltrim_rjust) simp_all
  with strtoull_to_string [OF assms] show ?thesis by simp
qed

lemma unat64_bounds: "unat (x :: 64 word) \<le> ULLONG_MAX" "unat (x :: 64 word) < 10 ^ 20"
proof -
  have "unat x < 2 ^ 64" using unsigned_less [of x] by simp
  then show "unat x \<le> ULLONG_MAX" "unat x < 10 ^ 20" by (simp_all add: ULLONG_MAX_def)
qed

lemma unat32_bounds: "unat (x :: 32 word) \<le> ULLONG_MAX" "unat (x :: 32 word) < 10 ^ 10"
proof -
  have "unat x < 2 ^ 32" using unsigned_less [of x] by simp
  then show "unat x \<le> ULLONG_MAX" "unat x < 10 ^ 10" by (simp_all add: ULLONG_MAX_def)
qed

lemma decode_field64: "strtoull (ltrim (rjust k (to_string (unat (x :: 64 word))))) = x"
  by (simp add: decode_number unat64_bounds)

lemma decode_field32: "ucast (strtoul (ltrim (rjust k (to_string (unat (x :: 32 word)))))) = x"
proof -
  have "strtoul (ltrim (rjust k (to_string (unat x)))) = (word_of_nat (unat x) :: 64 word)"
    by (simp add: strtoul_def decode_number unat32_bounds)
  moreover have "ucast (word_of_nat (unat x) :: 64 word) = x"
    by (simp add: of_nat_unat ucast_up_ucast_id is_up)
  ultimately show ?thesis by simp
qed

lemma field_lengths:
  "length (rjust 20 (to_string (unat (x :: 64 word)))) = 20"
  "length (rjust 10 (to_string (unat (y :: 32 word)))) = 10"
proof -
  have "length (to_string (unat x)) \<le> 20"
    using unat64_bounds(2) [of x] by (intro to_string_length) simp_all
  then show "length (rjust 20 (to_string (unat x))) = 20" by (rule rjust_length)
  have "length (to_string (unat y)) \<le> 10"
    using unat32_bounds(2) [of y] by (intro to_string_length) simp_all
  then show "length (rjust 10 (to_string (unat y))) = 10" by (rule rjust_length)
qed

subsection \<open>The index and the loader\<close>

lemma map_insert_set: "set (fst (map_insert k v m)) \<subseteq> insert (k, v) (set m)"
proof (induction m)
  case Nil
  show ?case by simp
next
  case (Cons e m)
  obtain k' v' where e: "e = (k', v')" by (cases e)
  obtain m' b where r: "map_insert k v m = (m', b)" by (cases "map_insert k v m")
  with Cons.IH have "set m' \<subseteq> insert (k, v) (set m)" by simp
  with e r show ?case by auto
qed

lemma map_insert_keeps: "set m \<subseteq> set (fst (map_insert k v m))"
proof (induction m)
  case Nil
  show ?case by simp
next
  case (Cons e m)
  obtain k' v' where e: "e = (k', v')" by (cases e)
  obtain m' b where r: "map_insert k v m = (m', b)" by (cases "map_insert k v m")
  with Cons.IH have "set m \<subseteq> set m'" by simp
  with e r show ?case by auto
qed

lemma map_insert_sorted:
  "sorted_wrt (<) (map fst m) \<Longrightarrow> sorted_wrt (<) (map fst (fst (map_insert k v m)))"
proof (induction m)
  case Nil
  then show ?case by simp
next
  case (Cons e m)
  obtain k' v' where e: "e = (k', v')" by (cases e)
  obtain m' b where r: "map_insert k v m = (m', b)" by (cases "map_insert k v m")
  from Cons.prems have "sorted_wrt (<) (map fst m)" by simp
  from Cons.IH [OF this] r have IH: "sorted_wrt (<) (map fst m')" by simp
  from map_insert_set [of k v m] r have sub: "set m' \<subseteq> insert (k, v) (set m)" by simp
  show ?case
  proof (cases "k = k'")
    case True
    with Cons.prems e show ?thesis by simp
  next
    case ne: False
    show ?thesis
    proof (cases "k < k'")
      case True
      with Cons.prems e ne show ?thesis by auto
    next
      case False
      with ne have "k' < k" by auto
      with Cons.prems e sub have "\<forall>x \<in> set m'. k' < fst x" by auto
      with False ne e r IH show ?thesis by simp
    qed
  qed
qed

lemma map_insert_flag:
  "sorted_wrt (<) (map fst m) \<Longrightarrow> snd (map_insert k v m) = (k \<notin> fst ` set m)"
proof (induction m)
  case Nil
  then show ?case by simp
next
  case (Cons e m)
  obtain k' v' where e: "e = (k', v')" by (cases e)
  obtain m' b where r: "map_insert k v m = (m', b)" by (cases "map_insert k v m")
  from Cons.prems have "sorted_wrt (<) (map fst m)" by simp
  from Cons.IH [OF this] r have IH: "b = (k \<notin> fst ` set m)" by simp
  show ?case
  proof (cases "k = k'")
    case True
    with e show ?thesis by simp
  next
    case ne: False
    show ?thesis
    proof (cases "k < k'")
      case True
      with Cons.prems e have "k \<notin> fst ` set m" by force
      with True ne e show ?thesis by simp
    next
      case False
      with ne e r IH show ?thesis by simp
    qed
  qed
qed

lemma map_insert_map_of:
  "sorted_wrt (<) (map fst m) \<Longrightarrow>
     map_of (fst (map_insert k v m)) = (if k \<in> fst ` set m then map_of m else (map_of m)(k \<mapsto> v))"
proof (induction m)
  case Nil
  then show ?case by simp
next
  case (Cons e m)
  obtain k' v' where e: "e = (k', v')" by (cases e)
  obtain m' b where r: "map_insert k v m = (m', b)" by (cases "map_insert k v m")
  from Cons.prems have s: "sorted_wrt (<) (map fst m)" by simp
  from Cons.IH [OF s] r
  have IH: "map_of m' = (if k \<in> fst ` set m then map_of m else (map_of m)(k \<mapsto> v))" by simp
  show ?case
  proof (cases "k = k'")
    case True
    with e show ?thesis by simp
  next
    case ne: False
    show ?thesis
    proof (cases "k < k'")
      case True
      with Cons.prems e have "k \<notin> fst ` set m" by force
      with True ne e show ?thesis by auto
    next
      case False
      with ne e r IH show ?thesis
        by (auto simp: fun_upd_twist)
    qed
  qed
qed

lemma readLine_skip:
  "substr line 0 1 = ''d'' \<Longrightarrow> length line \<noteq> 92 \<Longrightarrow> readLine line dup d w = (Inr dup, d, w)"
  by (simp add: readLine_def Let_def)

lemma readLine_other:
  "substr line 0 1 \<noteq> ''d'' \<Longrightarrow> substr line 0 1 \<noteq> ''b'' \<Longrightarrow> readLine line dup d w = (Inr dup, d, w)"
  by (simp add: readLine_def Let_def)

lemma readLine_live:
  assumes "live_address_line line"
  shows "readLine line dup d w =
     (let d1 = (if both_flags_set line then log_msg (fst (whitelist_warning (decode_address line))) (snd (whitelist_warning (decode_address line))) d else d);
          m = map_insert (decode_address line) (decode_data line) (suspiciousAddresses d1)
      in if \<not> snd m
         then (Inr True, log_msg Warning (''Address'' @ decode_address line @ '' is duplicated in data file, new datafile without duplicates will be created!'') (d1\<lparr>suspiciousAddresses := fst m\<rparr>), w)
         else (Inr dup, d1\<lparr>suspiciousAddresses := fst m\<rparr>, w))"
proof -
  obtain m b where r: "map_insert (decode_address line) (decode_data line) (suspiciousAddresses d) = (m, b)"
    by (cases "map_insert (decode_address line) (decode_data line) (suspiciousAddresses d)")
  from assms r show ?thesis
    unfolding readLine_def Let_def live_address_line_def both_flags_set_def whitelist_warning_def
    by (cases "substr line 90 1 = ''y''"; cases "substr line 91 1 = ''y''"; simp add: log_msg_def)
qed

lemma readLine_bookmark:
  assumes "substr line 0 1 = ''b''"
  shows "readLine line dup d w =
     (if length line < 41 then (Inl OutOfRange, d, w)
      else (let bm = strtoull (ltrim (substr line 1 20));
                sz = strtoull (ltrim (substr line 21 20));
                logFilePath = rtrim (ltrim (drop 41 line));
                g = set_logGroup logFilePath bm sz (logGroups (config d))
            in if snd g
               then (Inr dup, log_msg Debug (''Bookmark: '' @ to_string (unat bm) @ '' Size: '' @ to_string (unat sz) @ '' Path: '' @ logFilePath) (d\<lparr>config := (config d)\<lparr>logGroups := fst g\<rparr>\<rparr>), w)
               else (Inr dup, log_msg Warning (''Bookmark information in datafile for log file '' @ logFilePath @ '' found, but file not present in configuration. Removing from datafile...'') d, w)))"
  using assms
  by (simp add: readLine_def Let_def removeFile_def split: prod.splits)

lemma readLine_cases:
  obtains (live) "live_address_line line"
  | (skip) "readLine line dup d w = (Inr dup, d, w)"
  | (bookmark) "substr line 0 1 = ''b''"
  using readLine_skip readLine_other unfolding live_address_line_def by blast

text \<open>What a line does to the world, the index and the log.\<close>

lemma readLine_frame:
  assumes "readLine line dup d w = (r, d', w')"
  shows "w' = w" and "set (logger d) \<subseteq> set (logger d')"
    and "dataFilePath (config d') = dataFilePath (config d)"
    and "set (suspiciousAddresses d') \<subseteq> insert (decode_address line, decode_data line) (set (suspiciousAddresses d))"
    and "set (suspiciousAddresses d) \<subseteq> set (suspiciousAddresses d')"
    and "suspiciousAddresses d' \<noteq> suspiciousAddresses d \<Longrightarrow> live_address_line line"
    and "sorted_wrt (<) (map fst (suspiciousAddresses d)) \<Longrightarrow> sorted_wrt (<) (map fst (suspiciousAddresses d'))"
proof -
  have "w' = w \<and> set (logger d) \<subseteq> set (logger d')
    \<and> dataFilePath (config d') = dataFilePath (config d)
    \<and> set (suspiciousAddresses d') \<subseteq> insert (decode_address line, decode_data line) (set (suspiciousAddresses d))
    \<and> set (suspiciousAddresses d) \<subseteq> set (suspiciousAddresses d')
    \<and> (suspiciousAddresses d' \<noteq> suspiciousAddresses d \<longrightarrow> live_address_line line)
    \<and> (sorted_wrt (<) (map fst (suspiciousAddresses d)) \<longrightarrow> sorted_wrt (<) (map fst (suspiciousAddresses d')))"
    using readLine_cases [where line = line and dup = dup and d = d and w = w]
  proof cases
    case live
    from assms readLine_live [OF live, of dup d w]
      map_insert_set [of "decode_address line" "decode_data line" "suspiciousAddresses d"]
      map_insert_keeps [of "suspiciousAddresses d" "decode_address line" "decode_data line"]
      map_insert_sorted [of "suspiciousAddresses d" "decode_address line" "decode_data line"]
    show ?thesis
      by (auto simp: Let_def live split: if_splits)
  next
    case skip
    with assms show ?thesis by auto
  next
    case bookmark
    from assms readLine_bookmark [OF bookmark, of dup d w] show ?thesis
      by (auto simp: Let_def split: if_splits)
  qed
  then show "w' = w" and "set (logger d) \<subseteq> set (logger d')"
    and "dataFilePath (config d') = dataFilePath (config d)"
    and "set (suspiciousAddresses d') \<subseteq> insert (decode_address line, decode_data line) (set (suspiciousAddresses d))"
    and "set (suspiciousAddresses d) \<subseteq> set (suspiciousAddresses d')"
    and "suspiciousAddresses d' \<noteq> suspiciousAddresses d \<Longrightarrow> live_address_line line"
    and "sorted_wrt (<) (map fst (suspiciousAddresses d)) \<Longrightarrow> sorted_wrt (<) (map fst (suspiciousAddresses d'))"
    by blast+
qed

lemma decode_data_flags:
  "\<not> (whitelisted (decode_data line) \<and> blacklisted (decode_data line))"
  "both_flags_set line \<Longrightarrow> whitelisted (decode_data line) \<and> \<not> blacklisted (decode_data line)"
  "iptableRule (decode_data line) = False"
  by (simp_all add: decode_data_def Let_def both_flags_set_def)

lemma readLine_new_entry:
  assumes "readLine line dup d w = (r, d', w')"
    and "(a, rec) \<in> set (suspiciousAddresses d')" and "(a, rec) \<notin> set (suspiciousAddresses d)"
  shows "live_address_line line \<and> a = decode_address line \<and> rec = decode_data line
       \<and> (both_flags_set line \<longrightarrow> whitelist_warning a \<in> set (logger d'))"
proof -
  from assms have ne: "suspiciousAddresses d' \<noteq> suspiciousAddresses d" by auto
  from readLine_frame(6) [OF assms(1) ne] have live: "live_address_line line" .
  from readLine_frame(4) [OF assms(1)] assms(2,3)
  have e: "a = decode_address line" "rec = decode_data line" by auto
  from assms(1) readLine_live [OF live, of dup d w]
  have "both_flags_set line \<longrightarrow> whitelist_warning (decode_address line) \<in> set (logger d')"
    by (auto simp: Let_def split: if_splits)
  with live e show ?thesis by simp
qed

lemma readLines_frame:
  assumes "readLines ls dup d w = (r, d', w')"
  shows "w' = w \<and> set (logger d) \<subseteq> set (logger d')
       \<and> dataFilePath (config d') = dataFilePath (config d)
       \<and> set (suspiciousAddresses d) \<subseteq> set (suspiciousAddresses d')
       \<and> (sorted_wrt (<) (map fst (suspiciousAddresses d)) \<longrightarrow> sorted_wrt (<) (map fst (suspiciousAddresses d')))"
  using assms
proof (induction ls arbitrary: dup d w)
  case Nil
  then show ?case by simp
next
  case (Cons line ls)
  obtain r1 d1 w1 where s: "readLine line dup d w = (r1, d1, w1)" by (cases "readLine line dup d w")
  note f = readLine_frame [OF s]
  show ?case
  proof (cases r1)
    case (Inl e)
    with Cons.prems s have "d' = d1" "w' = w1" by simp_all
    with f show ?thesis by simp
  next
    case (Inr dup1)
    with Cons.prems s have "readLines ls dup1 d1 w1 = (r, d', w')" by simp
    from Cons.IH [OF this] f show ?thesis by auto
  qed
qed

text \<open>Every entry that a scan adds to the index is the decoding of a full-width d line of
  the file, and the warning for its corrected flags is in the log.\<close>

lemma readLines_new_entry:
  assumes "readLines ls dup d w = (r, d', w')"
    and "(a, rec) \<in> set (suspiciousAddresses d')" and "(a, rec) \<notin> set (suspiciousAddresses d)"
  shows "\<exists>line \<in> set ls. live_address_line line \<and> a = decode_address line \<and> rec = decode_data line
       \<and> (both_flags_set line \<longrightarrow> whitelist_warning a \<in> set (logger d'))"
  using assms
proof (induction ls arbitrary: dup d w)
  case Nil
  then show ?case by simp
next
  case (Cons line ls)
  obtain r1 d1 w1 where s: "readLine line dup d w = (r1, d1, w1)" by (cases "readLine line dup d w")
  show ?case
  proof (cases "(a, rec) \<in> set (suspiciousAddresses d1)")
    case True
    from readLine_new_entry [OF s True Cons.prems(3)]
    have n: "live_address_line line" "a = decode_address line" "rec = decode_data line"
      "both_flags_set line \<longrightarrow> whitelist_warning a \<in> set (logger d1)" by blast+
    have "set (logger d1) \<subseteq> set (logger d')"
    proof (cases r1)
      case (Inl e)
      with Cons.prems(1) s show ?thesis by simp
    next
      case (Inr dup1)
      with Cons.prems(1) s have "readLines ls dup1 d1 w1 = (r, d', w')" by simp
      from readLines_frame [OF this] show ?thesis by simp
    qed
    with n show ?thesis by auto
  next
    case False
    show ?thesis
    proof (cases r1)
      case (Inl e)
      with Cons.prems(1) s have "d' = d1" by simp
      with False Cons.prems(2) show ?thesis by simp
    next
      case (Inr dup1)
      with Cons.prems(1) s have "readLines ls dup1 d1 w1 = (r, d', w')" by simp
      from Cons.IH [OF this Cons.prems(2) False] show ?thesis by auto
    qed
  qed
qed

lemma saveData_frame:
  assumes "saveData d w = (ok, d', w')"
  shows "suspiciousAddresses d' = suspiciousAddresses d" and "config d' = config d"
    and "set (logger d) \<subseteq> set (logger d')"
    and "ok = can_write w (dataFilePath (config d))"
    and "ok \<Longrightarrow> files w' = (files w)(dataFilePath (config d) \<mapsto> saveData_text d)"
    and "\<not> ok \<Longrightarrow> w' = w"
  using assms by (auto simp: saveData_def Let_def saveData_text_def split: if_splits)

lemma saveData_text_log_msg [simp]: "saveData_text (log_msg lv m d) = saveData_text d"
  by (simp add: saveData_text_def)

lemma backup_and_save_frame:
  assumes "backup_and_save d w = (ok, d', w')"
  shows "suspiciousAddresses d' = suspiciousAddresses d" and "config d' = config d"
    and "set (logger d) \<subseteq> set (logger d')"
proof -
  let ?p = "dataFilePath (config d)"
  let ?n = "newDataFileName ?p (localtime_now w)"
  let ?w1 = "w\<lparr>files := (files w)(?n := files w ?p, ?p := None)\<rparr>"
  obtain s d1 w1 where sv: "saveData d ?w1 = (s, d1, w1)" by (cases "saveData d ?w1")
  note f = saveData_frame(1-3) [OF sv]
  from assms sv f
  have "suspiciousAddresses d' = suspiciousAddresses d \<and> config d' = config d \<and> set (logger d) \<subseteq> set (logger d')"
    unfolding backup_and_save_def Let_def
    by (auto split: if_splits)
  then show "suspiciousAddresses d' = suspiciousAddresses d" and "config d' = config d"
    and "set (logger d) \<subseteq> set (logger d')" by simp_all
qed

text \<open>\<open>loadData\<close> on a store file that opens: the index and the log after the call come from
  the scan of its lines.\<close>

lemma loadData_opened:
  assumes "files w (dataFilePath (config d)) = Some text" and "can_read w (dataFilePath (config d))"
    and "readLines (getlines text) False ((log_msg Info (''Loading data from '' @ dataFilePath (config d)) d)\<lparr>suspiciousAddresses := []\<rparr>) w = (r, d1, w1)"
  shows "loadData d w =
     (case r of
        Inl e \<Rightarrow> (Inl e, d1, w1)
      | Inr dup \<Rightarrow>
          (case (if dup then backup_and_save d1 w1 else (True, d1, w1)) of
             (ok, d2, w2) \<Rightarrow>
               if \<not> ok then (Inr False, d2, w2)
               else (Inr True, log_msg Info (''Loaded '' @ to_string (length (suspiciousAddresses d2)) @ '' IP address record(s)'') d2, w2)))"
  using assms unfolding loadData_def Let_def by (simp split: sum.splits)

lemma loadData_scan:
  assumes "files w (dataFilePath (config d)) = Some text" and "can_read w (dataFilePath (config d))"
  obtains r d1 where
    "readLines (getlines text) False ((log_msg Info (''Loading data from '' @ dataFilePath (config d)) d)\<lparr>suspiciousAddresses := []\<rparr>) w = (r, d1, w)"
    and "suspiciousAddresses (fst (snd (loadData d w))) = suspiciousAddresses d1"
    and "set (logger d1) \<subseteq> set (logger (fst (snd (loadData d w))))"
proof -
  let ?dl = "(log_msg Info (''Loading data from '' @ dataFilePath (config d)) d)\<lparr>suspiciousAddresses := []\<rparr>"
  obtain r d1 w1 where s: "readLines (getlines text) False ?dl w = (r, d1, w1)"
    by (cases "readLines (getlines text) False ?dl w")
  from readLines_frame [OF s] have w1: "w1 = w" by simp
  note eq = loadData_opened [OF assms s]
  have "suspiciousAddresses (fst (snd (loadData d w))) = suspiciousAddresses d1
      \<and> set (logger d1) \<subseteq> set (logger (fst (snd (loadData d w))))"
  proof (cases r)
    case (Inl e)
    with eq show ?thesis by simp
  next
    case (Inr dup)
    show ?thesis
    proof (cases dup)
      case False
      with Inr eq show ?thesis by auto
    next
      case True
      obtain ok d2 w2 where b: "backup_and_save d1 w1 = (ok, d2, w2)" by (cases "backup_and_save d1 w1")
      from backup_and_save_frame [OF b] True Inr eq b show ?thesis by (cases ok) auto
    qed
  qed
  with s w1 that show ?thesis by blast
qed

lemma map_insert_key: "k \<in> fst ` set (fst (map_insert k v m))"
proof (induction m)
  case Nil
  show ?case by simp
next
  case (Cons e m)
  obtain k' v' where e: "e = (k', v')" by (cases e)
  obtain m' b where r: "map_insert k v m = (m', b)" by (cases "map_insert k v m")
  with Cons.IH have "k \<in> fst ` set m'" by simp
  with e r show ?case by auto
qed

lemma readLine_live_effect:
  assumes "live_address_line line" and "sorted_wrt (<) (map fst (suspiciousAddresses d))"
    and "readLine line dup d w = (r, d', w')"
  shows "r = Inr (dup \<or> decode_address line \<in> fst ` set (suspiciousAddresses d))"
    and "decode_address line \<in> fst ` set (suspiciousAddresses d')"
    and "map_of (suspiciousAddresses d') =
           (if decode_address line \<in> fst ` set (suspiciousAddresses d) then map_of (suspiciousAddresses d)
            else (map_of (suspiciousAddresses d))(decode_address line \<mapsto> decode_data line))"
    and "suspiciousAddresses d' = fst (map_insert (decode_address line) (decode_data line) (suspiciousAddresses d))"
proof -
  let ?k = "decode_address line" and ?v = "decode_data line"
  let ?m = "map_insert ?k ?v (suspiciousAddresses d)"
  from assms(3) readLine_live [OF assms(1), of dup d w]
  have i: "suspiciousAddresses d' = fst ?m" and r: "r = Inr (if \<not> snd ?m then True else dup)"
    by (auto simp: Let_def split: if_splits)
  from r map_insert_flag [OF assms(2), of ?k ?v]
  show "r = Inr (dup \<or> ?k \<in> fst ` set (suspiciousAddresses d))" by auto
  from i map_insert_key [of ?k ?v "suspiciousAddresses d"]
  show "?k \<in> fst ` set (suspiciousAddresses d')" by simp
  from i map_insert_map_of [OF assms(2), of ?k ?v]
  show "map_of (suspiciousAddresses d') =
           (if ?k \<in> fst ` set (suspiciousAddresses d) then map_of (suspiciousAddresses d)
            else (map_of (suspiciousAddresses d))(?k \<mapsto> ?v))" by simp
  from i show "suspiciousAddresses d' = fst ?m" .
qed

lemma readLine_not_live:
  assumes "\<not> live_address_line line" and "readLine line dup d w = (Inr dup', d', w')"
  shows "dup' = dup" and "suspiciousAddresses d' = suspiciousAddresses d"
proof -
  from readLine_frame(6) [OF assms(2)] assms(1)
  show "suspiciousAddresses d' = suspiciousAddresses d" by blast
  show "dup' = dup"
    using readLine_cases [where line = line and dup = dup and d = d and w = w]
  proof cases
    case live
    with assms(1) show ?thesis by simp
  next
    case skip
    with assms(2) show ?thesis by simp
  next
    case bookmark
    from assms(2) readLine_bookmark [OF bookmark, of dup d w] show ?thesis
      by (auto simp: Let_def split: if_splits)
  qed
qed

lemma readLine_no_throw:
  assumes "substr line 0 1 = ''b'' \<longrightarrow> 41 \<le> length line"
  shows "\<exists>dup' d'. readLine line dup d w = (Inr dup', d', w)"
  using readLine_cases [where line = line and dup = dup and d = d and w = w]
proof cases
  case live
  from readLine_live [OF live, of dup d w] show ?thesis by (auto simp: Let_def)
next
  case skip
  then show ?thesis by simp
next
  case bookmark
  with assms readLine_bookmark [OF bookmark, of dup d w] show ?thesis by (auto simp: Let_def)
qed

lemma readLines_no_throw:
  assumes "\<forall>line \<in> set ls. substr line 0 1 = ''b'' \<longrightarrow> 41 \<le> length line"
  shows "\<exists>dup' d'. readLines ls dup d w = (Inr dup', d', w)"
  using assms
proof (induction ls arbitrary: dup d)
  case Nil
  show ?case by simp
next
  case (Cons line ls)
  from Cons.prems readLine_no_throw [of line dup d w]
  obtain dup1 d1 where s: "readLine line dup d w = (Inr dup1, d1, w)" by auto
  from Cons.IH [of dup1 d1] Cons.prems obtain dup' d' where "readLines ls dup1 d1 w = (Inr dup', d', w)"
    by auto
  with s show ?case by simp
qed


text \<open>The index after a scan: the first full-width d line of a key gives its record.\<close>

lemma readLines_first_occurrence:
  assumes "readLines ls dup d w = (Inr dup', d', w')"
    and "sorted_wrt (<) (map fst (suspiciousAddresses d))"
  shows "map_of (suspiciousAddresses d') k =
     (case map_of (suspiciousAddresses d) k of
        Some v \<Rightarrow> Some v
      | None \<Rightarrow> map_option decode_data (find (\<lambda>l. live_address_line l \<and> decode_address l = k) ls))"
  using assms
proof (induction ls arbitrary: dup d w)
  case Nil
  then show ?case by (simp split: option.splits)
next
  case (Cons line ls)
  obtain r1 d1 w1 where s: "readLine line dup d w = (r1, d1, w1)" by (cases "readLine line dup d w")
  with Cons.prems(1) obtain dup1 where r1: "r1 = Inr dup1" and rest: "readLines ls dup1 d1 w1 = (Inr dup', d', w')"
    by (cases r1) auto
  note f = readLine_frame [OF s]
  from f(7) Cons.prems(2) have sorted1: "sorted_wrt (<) (map fst (suspiciousAddresses d1))" by simp
  note IH = Cons.IH [OF rest sorted1]
  show ?case
  proof (cases "live_address_line line")
    case False
    from readLine_not_live(2) [OF False s [unfolded r1]] IH False show ?thesis
      by (auto split: option.splits)
  next
    case True
    note e = readLine_live_effect(3) [OF True Cons.prems(2) s]
    show ?thesis
    proof (cases "decode_address line \<in> fst ` set (suspiciousAddresses d)")
      case k: True
      then have "map_of (suspiciousAddresses d) (decode_address line) \<noteq> None"
        by (simp add: map_of_eq_None_iff)
      with e k IH True show ?thesis by (auto split: option.splits)
    next
      case k: False
      then have "map_of (suspiciousAddresses d) (decode_address line) = None"
        by (simp add: map_of_eq_None_iff)
      with e k IH True show ?thesis by (auto split: option.splits)
    qed
  qed
qed

subsection \<open>Address lines and lines of a file\<close>

lemma address_record_parts:
  assumes "length a \<le> 39"
  shows "length (address_record a r) = 93"
    and "substr (butlast (address_record a r)) 0 1 = ''d''"
    and "substr (butlast (address_record a r)) 1 39 = rjust 39 a"
    and "substr (butlast (address_record a r)) 40 20 = rjust 20 (to_string (unat (lastActivity r)))"
    and "substr (butlast (address_record a r)) 60 10 = rjust 10 (to_string (unat (activityScore r)))"
    and "substr (butlast (address_record a r)) 70 10 = rjust 10 (to_string (unat (activityCount r)))"
    and "substr (butlast (address_record a r)) 80 10 = rjust 10 (to_string (unat (refusedCount r)))"
    and "substr (butlast (address_record a r)) 90 1 = (if whitelisted r then ''y'' else ''n'')"
    and "substr (butlast (address_record a r)) 91 1 = (if blacklisted r then ''y'' else ''n'')"
proof -
  let ?A = "rjust 39 a" and ?L = "rjust 20 (to_string (unat (lastActivity r)))"
  let ?S = "rjust 10 (to_string (unat (activityScore r)))"
  let ?C = "rjust 10 (to_string (unat (activityCount r)))"
  let ?R = "rjust 10 (to_string (unat (refusedCount r)))"
  let ?W = "(if whitelisted r then ''y'' else ''n'')" and ?B = "(if blacklisted r then ''y'' else ''n'')"
  have l: "length ?A = 39" "length ?L = 20" "length ?S = 10" "length ?C = 10" "length ?R = 10"
    "length ?W = 1" "length ?B = 1"
    using assms by (simp_all add: rjust_length field_lengths)
  have b: "butlast (address_record a r) = ''d'' @ ?A @ ?L @ ?S @ ?C @ ?R @ ?W @ ?B"
    unfolding address_record_def by (simp add: butlast_append)
  from l show "length (address_record a r) = 93" unfolding address_record_def by simp
  from l show "substr (butlast (address_record a r)) 0 1 = ''d''" unfolding b substr_def by simp
  from l show "substr (butlast (address_record a r)) 1 39 = ?A" unfolding b substr_def by simp
  from l show "substr (butlast (address_record a r)) 40 20 = ?L" unfolding b substr_def by simp
  from l show "substr (butlast (address_record a r)) 60 10 = ?S" unfolding b substr_def by simp
  from l show "substr (butlast (address_record a r)) 70 10 = ?C" unfolding b substr_def by simp
  from l show "substr (butlast (address_record a r)) 80 10 = ?R" unfolding b substr_def by simp
  from l show "substr (butlast (address_record a r)) 90 1 = ?W" unfolding b substr_def by simp
  from l show "substr (butlast (address_record a r)) 91 1 = ?B" unfolding b substr_def by simp
qed

lemma address_record_live:
  "length a \<le> 39 \<Longrightarrow> live_address_line (butlast (address_record a r))"
  using address_record_parts(1,2) [of a r] unfolding live_address_line_def by simp

lemma readLines_filter:
  "readLines (filter (\<lambda>l. \<not> (substr l 0 1 = ''d'' \<and> length l \<noteq> 92)) ls) dup d w = readLines ls dup d w"
  by (induction ls arbitrary: dup d w) (auto simp: readLine_skip split: prod.splits sum.splits)


lemma getlines_from_line:
  "nl \<notin> set l \<Longrightarrow> getlines_from cur (l @ nl # rest) = (cur @ l) # getlines_from [] rest"
  by (induction l arbitrary: cur) auto

lemma getlines_single: "nl \<notin> set l \<Longrightarrow> getlines (l @ [nl]) = [l]"
  by (simp add: getlines_def getlines_from_line)

lemma ex_line_props:
  "nl \<notin> set ex_line" "live_address_line ex_line" "both_flags_set ex_line"
  "decode_address ex_line = ''1.2.3.4''"
  by (simp_all add: ex_line_def live_address_line_def both_flags_set_def substr_def
      decode_address_def ltrim_def isspace_def)

lemma ex_world_simps:
  "files (ex_world text) (dataFilePath (config (ex_data idx))) = Some text"
  "can_read (ex_world text) p" "can_write (ex_world text) p" "rename_ok (ex_world text) p q"
  "dataFilePath (config (ex_data idx)) = ''/hb.data''"
  "suspiciousAddresses (ex_data idx) = idx"
  by (simp_all add: ex_world_def ex_data_def ex_config_def)


subsection \<open>Lines of a file, the name of the backup\<close>

lemma getlines_file_of_lines:
  "\<forall>l \<in> set ls. nl \<notin> set l \<Longrightarrow> getlines (file_of_lines ls @ rest) = ls @ getlines rest"
  unfolding getlines_def file_of_lines_def
  by (induction ls) (simp_all add: getlines_from_line)

lemma getlines_file_of_lines' [simp]:
  "\<forall>l \<in> set ls. nl \<notin> set l \<Longrightarrow> getlines (file_of_lines ls) = ls"
  using getlines_file_of_lines [of ls "[]"] by (simp add: getlines_def)






lemma newDataFileName_fresh: "newDataFileName p t \<noteq> p"
  by (simp add: newDataFileName_def)



lemma loadData_first_occurrence:
  assumes "files w (dataFilePath (config d)) = Some text" and "can_read w (dataFilePath (config d))"
    and "\<forall>line \<in> set (getlines text). substr line 0 1 = ''b'' \<longrightarrow> 41 \<le> length line"
  shows "map_of (suspiciousAddresses (fst (snd (loadData d w)))) k
       = map_option decode_data (find (\<lambda>l. live_address_line l \<and> decode_address l = k) (getlines text))"
proof -
  let ?dl = "(log_msg Info (''Loading data from '' @ dataFilePath (config d)) d)\<lparr>suspiciousAddresses := []\<rparr>"
  from loadData_scan [OF assms(1,2)] obtain r d1 where
    s: "readLines (getlines text) False ?dl w = (r, d1, w)"
    and i: "suspiciousAddresses (fst (snd (loadData d w))) = suspiciousAddresses d1" by blast
  from readLines_no_throw [OF assms(3), of False ?dl w] s obtain dup where "r = Inr dup" by auto
  with s readLines_first_occurrence [of "getlines text" False ?dl w dup d1 w k] i
  show ?thesis by simp
qed

lemma ex_line_not_bookmark: "substr ex_line 0 1 \<noteq> ''b''"
  by (simp add: ex_line_def substr_def)



lemma ex_bookmark_props:
  "nl \<notin> set ex_bookmark" "substr ex_bookmark 0 1 = ''b''" "\<not> length ex_bookmark < 41"
  "hd (file_of_lines [ex_bookmark]) = CHR ''b''"
  "rtrim (ltrim (drop 41 ex_bookmark)) = ''/var/log/auth.log''"
  by (simp_all add: ex_bookmark_def substr_def file_of_lines_def rtrim_def ltrim_def isspace_def)


subsection \<open>The stream on a file of aligned lines\<close>

lemma fopen_stream_at: "fopen s = stream_at s 0"
  by (simp add: fopen_def stream_at_def)

lemma put_str_append: "put_str s2 (put_str s1 f) = put_str (s1 @ s2) f"
proof (cases "good f")
  case False
  then show ?thesis by (simp add: put_str_def good_def)
next
  case True
  show ?thesis
  proof (cases "pos f \<le> length (content f)")
    case le: True
    with True show ?thesis
      by (simp add: put_str_def good_def min_def ac_simps)
  next
    case gt: False
    with True show ?thesis
      by (simp add: put_str_def good_def)
  qed
qed

lemma put_payload_text: "put_payload r f = put_str (payload_text r) f"
  by (simp add: put_payload_def payload_text_def put_str_append)

lemma payload_text_length: "length (payload_text r) = 53"
  by (simp add: payload_text_def field_lengths)

lemma put_str_stream_at:
  "length s = length B \<Longrightarrow>
     put_str s (stream_at (X @ B @ Y) (length X)) = stream_at (X @ s @ Y) (length X + length s)"
  by (simp add: put_str_def stream_at_def good_def)

lemma seekg_cur_forward: "seekg_cur (int k) (stream_at c n) = stream_at c (n + k)"
  by (simp add: seekg_cur_def stream_at_def Let_def nat_add_distrib)

lemma seekg_cur_back: "k \<le> n \<Longrightarrow> seekg_cur (- int k) (stream_at c n) = stream_at c (n - k)"
  by (simp add: seekg_cur_def stream_at_def Let_def nat_diff_distrib')

lemma seekg_cur_numerals:
  "seekg_cur 53 (stream_at c n) = stream_at c (n + 53)"
  "seekg_cur 41 (stream_at c n) = stream_at c (n + 41)"
  "40 \<le> n \<Longrightarrow> seekg_cur (- 40) (stream_at c n) = stream_at c (n - 40)"
  using seekg_cur_forward [of 53 c n] seekg_cur_forward [of 41 c n] seekg_cur_back [of 40 n c]
  by simp_all

lemma get_char_stream_at:
  "n < length c \<Longrightarrow> get_char (stream_at c n) = (Some (c ! n), stream_at c (n + 1))"
  by (simp add: get_char_def stream_at_def good_def)

lemma get_char_stream_at_end:
  "length c \<le> n \<Longrightarrow> fst (get_char (stream_at c n)) = None"
  by (simp add: get_char_def stream_at_def good_def)

text \<open>Reading the address field of a d line of full width.\<close>

lemma takeWhile_all: "\<forall>x \<in> set xs. P x \<Longrightarrow> takeWhile P xs = xs"
  by (simp add: takeWhile_eq_all_conv)

lemma get_str_stream_at:
  assumes "nl \<notin> set F" and "length F = 39" and "Y \<noteq> []"
  shows "get_str 40 (stream_at (X @ F @ Y) (length X)) = (F, stream_at (X @ F @ Y) (length X + 39))"
proof -
  from assms(1) have "\<forall>x \<in> set F. x \<noteq> nl" by auto
  then have t: "takeWhile (\<lambda>c. c \<noteq> nl) F = F" by (rule takeWhile_all)
  from assms(2) have ne: "F \<noteq> []" by auto
  from assms(3) have y: "0 < length Y" by simp
  show ?thesis
    unfolding get_str_def stream_at_def good_def Let_def
    using y by (simp add: assms(2) t ne)
qed

text \<open>The inner loop started inside a line stops after the newline of that line.\<close>

lemma skip_to_newline_in_line:
  assumes "nl \<notin> set L" and "k \<le> length L"
  shows "skip_to_newline (stream_at (X @ L @ nl # Y) (length X + k))
       = stream_at (X @ L @ nl # Y) (length X + length L + 1)"
  using assms(2)
proof (induction "length L - k" arbitrary: k)
  case 0
  then have "k = length L" by simp
  with assms(1) show ?case
    by (subst skip_to_newline.simps) (simp add: get_char_stream_at nth_append)
next
  case (Suc m)
  then have k: "k < length L" "m = length L - Suc k" "Suc k \<le> length L" by simp_all
  from k(1) assms(1) have "L ! k \<noteq> nl" by (metis nth_mem)
  with k(1) have "skip_to_newline (stream_at (X @ L @ nl # Y) (length X + k))
      = skip_to_newline (stream_at (X @ L @ nl # Y) (length X + Suc k))"
    by (subst skip_to_newline.simps) (simp add: get_char_stream_at nth_append)
  with Suc.hyps(1) [OF k(2) k(3)] show ?case by simp
qed

lemma skippable_ops:
  assumes "skippable a L"
  shows "\<exists>ch f1. get_char (stream_at (X @ L @ nl # Y) (length X)) = (Some ch, f1)
       \<and> (if ch = CHR ''d''
          then (\<exists>F f2. get_str 40 f1 = (F, f2) \<and> ltrim (c_str F) \<noteq> a
                 \<and> seekg_cur 53 f2 = stream_at (X @ L @ nl # Y) (length X + length L + 1))
          else skip_to_newline (seekg_cur 41 f1) = stream_at (X @ L @ nl # Y) (length X + length L + 1))"
proof (cases "substr L 0 1 = ''d''")
  case True
  with assms have l: "length L = 92" and nm: "ltrim (c_str (substr L 1 39)) \<noteq> a" and nn: "nl \<notin> set L"
    by (simp_all add: skippable_def)
  from True l obtain L' where L: "L = CHR ''d'' # L'" by (cases L) (auto simp: substr_def)
  define F where "F = take 39 L'"
  define R where "R = drop 39 L'"
  from L l have F: "length F = 39" "L' = F @ R" "substr L 1 39 = F" and R: "length R = 52"
    by (simp_all add: F_def R_def substr_def)
  from nn L F have nF: "nl \<notin> set F" by auto
  let ?c = "X @ L @ nl # Y"
  have c: "?c = (X @ ''d'') @ F @ (R @ nl # Y)" by (simp add: L F)
  have g1: "get_char (stream_at ?c (length X)) = (Some (CHR ''d''), stream_at ?c (length X + 1))"
    by (subst get_char_stream_at) (simp_all add: L nth_append)
  have "get_str 40 (stream_at ((X @ ''d'') @ F @ (R @ nl # Y)) (length (X @ ''d'')))
      = (F, stream_at ((X @ ''d'') @ F @ (R @ nl # Y)) (length (X @ ''d'') + 39))"
    by (rule get_str_stream_at [OF nF F(1)]) simp
  then have g2: "get_str 40 (stream_at ?c (length X + 1)) = (F, stream_at ?c (length X + 40))"
    by (simp add: L F(2) ac_simps)
  have g3: "seekg_cur 53 (stream_at ?c (length X + 40)) = stream_at ?c (length X + length L + 1)"
    by (simp add: seekg_cur_numerals ac_simps l)
  from g1 g2 g3 nm F(3) show ?thesis by simp
next
  case False
  with assms have l: "42 \<le> length L" and nn: "nl \<notin> set L" by (simp_all add: skippable_def)
  from l obtain h L' where L: "L = h # L'" by (cases L) auto
  with False have h: "h \<noteq> CHR ''d''" by (simp add: substr_def)
  let ?c = "X @ L @ nl # Y"
  have g1: "get_char (stream_at ?c (length X)) = (Some h, stream_at ?c (length X + 1))"
    by (subst get_char_stream_at) (simp_all add: L nth_append)
  have g2: "seekg_cur 41 (stream_at ?c (length X + 1)) = stream_at ?c (length X + 42)"
    by (simp add: seekg_cur_numerals ac_simps)
  from skip_to_newline_in_line [OF nn l, of X Y]
  have g3: "skip_to_newline (stream_at ?c (length X + 42)) = stream_at ?c (length X + length L + 1)" .
  from g1 g2 g3 h show ?thesis by simp
qed

lemma matching_ops:
  assumes "matching_line a L"
  shows "get_char (stream_at (X @ L @ nl # Y) (length X)) = (Some (CHR ''d''), stream_at (X @ L @ nl # Y) (length X + 1))"
    and "\<exists>F. get_str 40 (stream_at (X @ L @ nl # Y) (length X + 1)) = (F, stream_at (X @ L @ nl # Y) (length X + 40))
           \<and> ltrim (c_str F) = a"
proof -
  from assms have d: "substr L 0 1 = ''d''" and l: "length L = 92"
    and m: "ltrim (c_str (substr L 1 39)) = a" and nn: "nl \<notin> set L"
    by (simp_all add: matching_line_def)
  from d l obtain L' where L: "L = CHR ''d'' # L'" by (cases L) (auto simp: substr_def)
  define F where "F = take 39 L'"
  define R where "R = drop 39 L'"
  from L l have F: "length F = 39" "L' = F @ R" "substr L 1 39 = F" and R: "length R = 52"
    by (simp_all add: F_def R_def substr_def)
  from nn L F have nF: "nl \<notin> set F" by auto
  let ?c = "X @ L @ nl # Y"
  have c: "?c = (X @ ''d'') @ F @ (R @ nl # Y)" by (simp add: L F)
  show "get_char (stream_at ?c (length X)) = (Some (CHR ''d''), stream_at ?c (length X + 1))"
    by (subst get_char_stream_at) (simp_all add: L nth_append)
  have "get_str 40 (stream_at ((X @ ''d'') @ F @ (R @ nl # Y)) (length (X @ ''d'')))
      = (F, stream_at ((X @ ''d'') @ F @ (R @ nl # Y)) (length (X @ ''d'') + 39))"
    by (rule get_str_stream_at [OF nF F(1)]) simp
  then have "get_str 40 (stream_at ?c (length X + 1)) = (F, stream_at ?c (length X + 40))"
    by (simp add: L F(2) ac_simps)
  with m F(3) show "\<exists>F. get_str 40 (stream_at ?c (length X + 1)) = (F, stream_at ?c (length X + 40))
           \<and> ltrim (c_str F) = a" by simp
qed


lemma update_scan_step:
  assumes "skippable a L"
  shows "update_scan a d (stream_at (X @ L @ nl # Y) (length X))
       = update_scan a d (stream_at (X @ L @ nl # Y) (length X + length L + 1))"
  using skippable_ops [OF assms, of X Y]
  by (subst update_scan.simps) (auto split: if_splits)

lemma file_of_lines_Cons: "file_of_lines (l # ls) = l @ nl # file_of_lines ls"
  by (simp add: file_of_lines_def)


lemma update_scan_skip_lines:
  assumes "\<forall>l \<in> set pre. skippable a l"
  shows "update_scan a d (stream_at (X @ file_of_lines pre @ Y) (length X))
       = update_scan a d (stream_at (X @ file_of_lines pre @ Y) (length X + length (file_of_lines pre)))"
  using assms
proof (induction pre arbitrary: X)
  case Nil
  show ?case by (simp add: file_of_lines_def)
next
  case (Cons l pre)
  from Cons.prems have s: "skippable a l" and r: "\<forall>l \<in> set pre. skippable a l" by simp_all
  from update_scan_step [OF s, of d X "file_of_lines pre @ Y"] Cons.IH [OF r, of "X @ l @ [nl]"]
  show ?case by (simp add: file_of_lines_Cons add.assoc)
qed


lemma update_scan_match:
  assumes "\<forall>l \<in> set pre. skippable a l" and "matching_line a L"
  shows "update_scan a d (fopen (file_of_lines pre @ L @ nl # Y))
       = (True, snd (map_index a d),
          stream_at (file_of_lines pre @ take 40 L @ payload_text (fst (map_index a d)) @ Y)
            (length (file_of_lines pre) + 93))"
proof -
  let ?P = "file_of_lines pre"
  let ?c = "?P @ L @ nl # Y"
  let ?r = "fst (map_index a d)"
  from assms(2) have l: "length L = 92" by (simp add: matching_line_def)
  have e: "take 40 L @ drop 40 L @ nl # Y = L @ nl # Y"
    by (simp add: append_assoc [symmetric] del: append_assoc)
  from update_scan_skip_lines [OF assms(1), of d "[]" "L @ nl # Y"]
  have "update_scan a d (fopen ?c) = update_scan a d (stream_at ?c (length ?P))"
    by (simp add: fopen_stream_at)
  also from matching_ops [OF assms(2), of ?P Y]
  have "\<dots> = (True, snd (map_index a d), put_payload ?r (stream_at ?c (length ?P + 40)))"
    by (subst update_scan.simps) (auto split: prod.splits)
  also have "put_payload ?r (stream_at ?c (length ?P + 40))
      = put_str (payload_text ?r) (stream_at ((?P @ take 40 L) @ (drop 40 L @ [nl]) @ Y) (length (?P @ take 40 L)))"
    using l by (simp add: put_payload_text e)
  also have "\<dots> = stream_at ((?P @ take 40 L) @ payload_text ?r @ Y) (length (?P @ take 40 L) + length (payload_text ?r))"
    by (rule put_str_stream_at) (simp add: payload_text_length l)
  finally show ?thesis using l by (simp add: payload_text_length ac_simps)
qed

subsection \<open>The positions that the scans examine\<close>

lemma update_scan_failed: "\<not> good f \<Longrightarrow> fst (update_scan a d f) = False"
  by (subst update_scan.simps) (simp add: get_char_def)

lemma skip_to_newline_general:
  "skip_to_newline (stream_at c q) =
     (if nl \<in> set (drop q c)
      then stream_at c (q + length (takeWhile (\<lambda>x. x \<noteq> nl) (drop q c)) + 1)
      else \<lparr>content = c, pos = max q (length c), eofbit = True, failbit = True\<rparr>)"
proof (induction "length c - q" arbitrary: q)
  case 0
  then have "length c \<le> q" by simp
  then show ?case
    by (subst skip_to_newline.simps) (simp add: get_char_def stream_at_def good_def max_def)
next
  case (Suc m)
  then have q: "q < length c" and m: "m = length c - Suc q" by simp_all
  from q have d: "drop q c = c ! q # drop (Suc q) c" by (simp add: Cons_nth_drop_Suc)
  show ?case
  proof (cases "c ! q = nl")
    case True
    with q d show ?thesis
      by (subst skip_to_newline.simps) (simp add: get_char_stream_at)
  next
    case False
    from Suc.hyps(1) [OF m] have IH: "skip_to_newline (stream_at c (Suc q)) =
      (if nl \<in> set (drop (Suc q) c)
       then stream_at c (Suc q + length (takeWhile (\<lambda>x. x \<noteq> nl) (drop (Suc q) c)) + 1)
       else \<lparr>content = c, pos = max (Suc q) (length c), eofbit = True, failbit = True\<rparr>)" .
    have e: "skip_to_newline (stream_at c q) = skip_to_newline (stream_at c (Suc q))"
      using q False by (subst skip_to_newline.simps) (simp add: get_char_stream_at)
    show ?thesis
    proof (cases "nl \<in> set (drop (Suc q) c)")
      case True
      with e IH d False show ?thesis by simp
    next
      case nf: False
      with e IH d False q show ?thesis by (simp add: max_def)
    qed
  qed
qed


lemma get_str_field:
  "get_str 40 (stream_at c n) =
     (address_field_at c n,
      \<lparr>content = c, pos = n + length (address_field_at c n),
         eofbit = (length c \<le> n + length (address_field_at c n)),
         failbit = (address_field_at c n = [])\<rparr>)"
  by (simp add: get_str_def stream_at_def good_def Let_def address_field_at_def)

text \<open>The loop of \<open>updateAddress\<close> finds the record exactly when one of the positions it
  examines holds it; the loop of \<open>removeAddress\<close> examines the same positions.\<close>

lemma update_scan_found:
  "fst (update_scan a d (stream_at bytes n)) = (\<exists>m \<in> set (scan_positions bytes n). match_at a bytes m)"
proof (induction bytes n rule: scan_positions.induct)
  case (1 bytes n)
  show ?case
  proof (cases "length bytes \<le> n")
    case True
    then have "fst (update_scan a d (stream_at bytes n)) = False"
      by (subst update_scan.simps) (simp add: get_char_def stream_at_def good_def)
    moreover from True have "scan_positions bytes n = []"
      by (subst scan_positions.simps) simp
    ultimately show ?thesis by simp
  next
    case inside: False
    then have g: "get_char (stream_at bytes n) = (Some (bytes ! n), stream_at bytes (n + 1))"
      by (simp add: get_char_stream_at)
    show ?thesis
    proof (cases "bytes ! n = CHR ''d''")
      case d: True
      let ?fld = "address_field_at bytes (n + 1)"
      let ?f2 = "\<lparr>content = bytes, pos = n + 1 + length ?fld,
         eofbit = (length bytes \<le> n + 1 + length ?fld), failbit = (?fld = [])\<rparr>"
      have gs: "get_str 40 (stream_at bytes (n + 1)) = (?fld, ?f2)" by (rule get_str_field)
      have here: "n \<in> set (scan_positions bytes n)"
        using inside d by (subst scan_positions.simps) simp
      show ?thesis
      proof (cases "ltrim (c_str ?fld) = a")
        case True
        with g d gs have "fst (update_scan a d (stream_at bytes n)) = True"
          by (subst update_scan.simps) (simp split: prod.splits)
        moreover from True d have "match_at a bytes n" by (simp add: match_at_def)
        ultimately show ?thesis using here by blast
      next
        case mismatch: False
        then have nm: "\<not> match_at a bytes n" by (simp add: match_at_def)
        from g d gs mismatch
        have step: "update_scan a d (stream_at bytes n) = update_scan a d (seekg_cur 53 ?f2)"
          by (subst update_scan.simps) simp
        show ?thesis
        proof (cases "?fld = []")
          case True
          then have "\<not> good (seekg_cur 53 ?f2)" by (simp add: seekg_cur_def good_def Let_def)
          from update_scan_failed [OF this] step
          have "fst (update_scan a d (stream_at bytes n)) = False" by simp
          moreover from True inside d have "scan_positions bytes n = [n]"
            by (subst scan_positions.simps) simp
          ultimately show ?thesis using nm by simp
        next
          case False
          then have "seekg_cur 53 ?f2 = stream_at bytes (n + 1 + length ?fld + 53)"
            by (simp add: seekg_cur_def stream_at_def Let_def nat_add_distrib)
          with step have "fst (update_scan a d (stream_at bytes n))
              = fst (update_scan a d (stream_at bytes (n + 1 + length ?fld + 53)))" by simp
          also from "1.IH"(1) [OF inside d False]
          have "\<dots> = (\<exists>m \<in> set (scan_positions bytes (n + 1 + length ?fld + 53)). match_at a bytes m)" .
          also from False inside d
          have "scan_positions bytes n = n # scan_positions bytes (n + 1 + length ?fld + 53)"
            by (subst scan_positions.simps) simp
          then have "(\<exists>m \<in> set (scan_positions bytes (n + 1 + length ?fld + 53)). match_at a bytes m)
              = (\<exists>m \<in> set (scan_positions bytes n). match_at a bytes m)"
            using nm by simp
          finally show ?thesis .
        qed
      qed
    next
      case other: False
      then have nm: "\<not> match_at a bytes n" by (simp add: match_at_def)
      let ?k = "length (takeWhile (\<lambda>c. c \<noteq> nl) (drop (n + 42) bytes))"
      have s: "seekg_cur 41 (stream_at bytes (Suc n)) = stream_at bytes (n + 42)"
        using seekg_cur_numerals(2) [of bytes "n + 1"] by (simp add: ac_simps)
      from g other
      have step: "update_scan a d (stream_at bytes n)
          = update_scan a d (skip_to_newline (stream_at bytes (n + 42)))"
        by (subst update_scan.simps) (simp add: s)
      show ?thesis
      proof (cases "nl \<in> set (drop (n + 42) bytes)")
        case True
        then have "skip_to_newline (stream_at bytes (n + 42)) = stream_at bytes (n + 42 + ?k + 1)"
          by (simp add: skip_to_newline_general)
        with step have "fst (update_scan a d (stream_at bytes n))
            = fst (update_scan a d (stream_at bytes (n + 42 + ?k + 1)))" by simp
        also from "1.IH"(2) [OF inside other True]
        have "\<dots> = (\<exists>m \<in> set (scan_positions bytes (n + 42 + ?k + 1)). match_at a bytes m)" .
        also from True inside other
        have "scan_positions bytes n = n # scan_positions bytes (n + 42 + ?k + 1)"
          by (subst scan_positions.simps) simp
        then have "(\<exists>m \<in> set (scan_positions bytes (n + 42 + ?k + 1)). match_at a bytes m)
            = (\<exists>m \<in> set (scan_positions bytes n). match_at a bytes m)"
          using nm by simp
        finally show ?thesis .
      next
        case False
        then have "\<not> good (skip_to_newline (stream_at bytes (n + 42)))"
          by (simp add: skip_to_newline_general good_def)
        from update_scan_failed [OF this] step
        have "fst (update_scan a d (stream_at bytes n)) = False" by simp
        moreover from False inside other have "scan_positions bytes n = [n]"
          by (subst scan_positions.simps) simp
        ultimately show ?thesis using nm by simp
      qed
    qed
  qed
qed


lemma remove_scan_update_scan: "fst (remove_scan a f) = fst (update_scan a d f)"
proof (induction a d f rule: update_scan.induct)
  case (1 address d f)
  show ?case
    apply (subst remove_scan.simps)
    apply (subst update_scan.simps)
    using 1
    apply (auto split: prod.splits option.splits)
    done
qed

lemma remove_scan_found:
  "fst (remove_scan a (stream_at bytes n)) = (\<exists>m \<in> set (scan_positions bytes n). match_at a bytes m)"
  using update_scan_found [of a undefined bytes n] remove_scan_update_scan [of a "stream_at bytes n" undefined]
  by simp

lemma scan_positions_end: "length bytes \<le> n \<Longrightarrow> scan_positions bytes n = []"
  by (subst scan_positions.simps) simp

lemma scan_positions_here: "n < length bytes \<Longrightarrow> n \<in> set (scan_positions bytes n)"
  by (subst scan_positions.simps) simp

lemma updateAddress_found:
  assumes "files w (dataFilePath (config d)) = Some bytes"
    and "can_read w (dataFilePath (config d))" and "can_write w (dataFilePath (config d))"
  shows "fst (updateAddress address d w) = (\<exists>n \<in> set (scan_positions bytes 0). match_at address bytes n)"
proof -
  let ?d = "log_msg Debug (''Updating record in '' @ dataFilePath (config d) @ '', updating address '' @ address) d"
  obtain b d' f' where s: "update_scan address ?d (fopen bytes) = (b, d', f')"
    by (cases "update_scan address ?d (fopen bytes)")
  from update_scan_found [of address ?d bytes 0] s
  have "b = (\<exists>n \<in> set (scan_positions bytes 0). match_at address bytes n)"
    by (simp add: fopen_stream_at)
  with updateAddress_opened [OF assms s] show ?thesis by simp
qed

lemma removeAddress_found:
  assumes "files w (dataFilePath (config d)) = Some bytes"
    and "can_read w (dataFilePath (config d))" and "can_write w (dataFilePath (config d))"
  shows "fst (removeAddress address d w) = (\<exists>n \<in> set (scan_positions bytes 0). match_at address bytes n)"
proof -
  obtain b f' where s: "remove_scan address (fopen bytes) = (b, f')"
    by (cases "remove_scan address (fopen bytes)")
  from remove_scan_found [of address bytes 0] s
  have "b = (\<exists>n \<in> set (scan_positions bytes 0). match_at address bytes n)"
    by (simp add: fopen_stream_at)
  with removeAddress_opened [OF assms s] show ?thesis by simp
qed

lemma point_operation_error_logged:
  assumes "files w (dataFilePath (config d)) = Some bytes"
    and "can_read w (dataFilePath (config d))" and "can_write w (dataFilePath (config d))"
  shows "fst (updateAddress address d w) = False \<Longrightarrow>
      (Error, ''Unable to update '' @ address @ '' in data file, record not found in data file!'')
        \<in> set (logger (fst (snd (updateAddress address d w))))"
    and "fst (removeAddress address d w) = False \<Longrightarrow>
      (Error, ''Tried removing address '' @ address @ '' from datafile, but record is not present in datafile!'')
        \<in> set (logger (fst (snd (removeAddress address d w))))"
proof -
  let ?d = "log_msg Debug (''Updating record in '' @ dataFilePath (config d) @ '', updating address '' @ address) d"
  obtain b d' f' where s: "update_scan address ?d (fopen bytes) = (b, d', f')"
    by (cases "update_scan address ?d (fopen bytes)")
  obtain b2 f2 where s2: "remove_scan address (fopen bytes) = (b2, f2)"
    by (cases "remove_scan address (fopen bytes)")
  from updateAddress_opened [OF assms s]
  show "fst (updateAddress address d w) = False \<Longrightarrow>
      (Error, ''Unable to update '' @ address @ '' in data file, record not found in data file!'')
        \<in> set (logger (fst (snd (updateAddress address d w))))"
    by (simp split: if_splits)
  from removeAddress_opened [OF assms s2]
  show "fst (removeAddress address d w) = False \<Longrightarrow>
      (Error, ''Tried removing address '' @ address @ '' from datafile, but record is not present in datafile!'')
        \<in> set (logger (fst (snd (removeAddress address d w))))"
    by (simp split: if_splits)
qed

lemma ex_opens:
  "files (ex_world bytes) (dataFilePath (config (ex_data idx))) = Some bytes"
  "can_read (ex_world bytes) (dataFilePath (config (ex_data idx)))"
  "can_write (ex_world bytes) (dataFilePath (config (ex_data idx)))"
  by (simp_all add: ex_world_def ex_data_def ex_config_def)

lemma ex_short_match: "match_at ''1.2.3.4'' ex_short 0"
  by (simp add: match_at_def ex_short_def address_field_at_def ltrim_def c_str_def isspace_def)

lemma ex_embedded_positions: "scan_positions ex_embedded 0 = [0]"
  by (subst scan_positions.simps) (simp add: ex_embedded_def scan_positions_end)

lemma ex_embedded_props:
  "ex_embedded ! 42 = CHR ''d''"
  "ltrim (c_str (address_field_at ex_embedded 43)) = ''1.2.3.4''"
  "\<not> match_at ''1.2.3.4'' ex_embedded 0"
  by (simp_all add: ex_embedded_def match_at_def address_field_at_def ltrim_def c_str_def isspace_def)

lemma ex_short_lines: "getlines ex_short = [''d1.2.3.4'']"
  using getlines_file_of_lines' [of "[''d1.2.3.4'']"] by (simp add: ex_short_def file_of_lines_def)

text \<open>A file of aligned lines, none of them the record of the address, has no match.\<close>

lemma aligned_no_match:
  assumes "\<forall>l \<in> set ls. skippable a l"
  shows "\<forall>n \<in> set (scan_positions (file_of_lines ls) 0). \<not> match_at a (file_of_lines ls) n"
proof -
  let ?F = "file_of_lines ls"
  from update_scan_skip_lines [OF assms, of undefined "[]" "[]"]
  have "update_scan a undefined (stream_at ?F 0) = update_scan a undefined (stream_at ?F (length ?F))"
    by simp
  then have "fst (update_scan a undefined (stream_at ?F 0)) = False"
    by (simp add: update_scan_found scan_positions_end)
  then show ?thesis by (simp add: update_scan_found)
qed


subsection \<open>The point operations on a file of aligned lines\<close>

lemma map_index_fst:
  "fst (map_index a d) = (case map_of (suspiciousAddresses d) a of Some r \<Rightarrow> r | None \<Rightarrow> value_init)"
  by (simp add: map_index_def split: option.splits)

lemma updateAddress_match:
  assumes "files w (dataFilePath (config d)) = Some (file_of_lines pre @ line @ nl # rest)"
    and "can_read w (dataFilePath (config d))" and "can_write w (dataFilePath (config d))"
    and "\<forall>l \<in> set pre. skippable address l" and "matching_line address line"
  shows "fst (updateAddress address d w) = True"
    and "files (snd (snd (updateAddress address d w)))
         = (files w)(dataFilePath (config d) \<mapsto>
              file_of_lines pre @ take 40 line
              @ payload_text (case map_of (suspiciousAddresses d) address of Some r \<Rightarrow> r | None \<Rightarrow> value_init)
              @ rest)"
proof -
  let ?d = "log_msg Debug (''Updating record in '' @ dataFilePath (config d) @ '', updating address '' @ address) d"
  note s = update_scan_match [OF assms(4,5), of ?d rest]
  note u = updateAddress_opened [OF assms(1-3) s]
  from u show "fst (updateAddress address d w) = True" by simp
  from u show "files (snd (snd (updateAddress address d w)))
         = (files w)(dataFilePath (config d) \<mapsto>
              file_of_lines pre @ take 40 line
              @ payload_text (case map_of (suspiciousAddresses d) address of Some r \<Rightarrow> r | None \<Rightarrow> value_init)
              @ rest)"
    by (simp add: stream_at_def map_index_fst)
qed






lemma ex_line_matching: "matching_line ''1.2.3.4'' ex_line"
  by (simp add: matching_line_def ex_line_def substr_def ltrim_def c_str_def isspace_def)

lemma payload_text_value_init:
  "payload_text value_init = ''                   0         0         0         0nn'' @ [nl]"
  by (simp add: payload_text_def value_init_def rjust_def to_string.simps digit_char_def eval_nat_numeral)

lemma ex_partial_scan:
  "update_scan ''1.2.3.4'' d (fopen ex_partial)
     = (True, snd (map_index ''1.2.3.4'' d),
        put_payload (fst (map_index ''1.2.3.4'' d)) (stream_at ex_partial 8))"
  by (subst update_scan.simps)
     (simp add: fopen_def stream_at_def get_char_def get_str_def good_def ex_partial_def ex_line_def
        ltrim_def c_str_def isspace_def Let_def eval_nat_numeral split: prod.splits)


lemma ex_partial_lines: "getlines ex_partial = [''d1.2.3.4'', ex_line]"
proof -
  have "ex_partial = file_of_lines [''d1.2.3.4'', ex_line]"
    by (simp add: ex_partial_def file_of_lines_def)
  moreover have "\<forall>l \<in> set [''d1.2.3.4'', ex_line]. nl \<notin> set l" using ex_line_props(1) by simp
  then have "getlines (file_of_lines [''d1.2.3.4'', ex_line]) = [''d1.2.3.4'', ex_line]"
    by (rule getlines_file_of_lines')
  ultimately show ?thesis by (simp only:)
qed

lemma ex_partial_update:
  "fst (updateAddress ''1.2.3.4'' (ex_data []) (ex_world ex_partial)) = True"
  "files (snd (snd (updateAddress ''1.2.3.4'' (ex_data []) (ex_world ex_partial)))) ''/hb.data''
     = Some (''d1.2.3.4'' @ payload_text value_init @ drop 52 ex_line @ [nl])"
proof -
  let ?d = "ex_data []" and ?w = "ex_world ex_partial"
  let ?d1 = "log_msg Debug (''Updating record in '' @ dataFilePath (config ?d) @ '', updating address '' @ ''1.2.3.4'') ?d"
  have r: "fst (map_index ''1.2.3.4'' ?d1) = value_init"
    by (simp add: map_index_fst ex_data_def)
  have l: "length ex_line = 92" using ex_line_props(2) by (simp add: live_address_line_def)
  have c: "ex_partial = ''d1.2.3.4'' @ (nl # take 52 ex_line) @ (drop 52 ex_line @ [nl])"
    by (simp add: ex_partial_def)
  have "put_payload value_init (stream_at ex_partial 8)
      = put_str (payload_text value_init) (stream_at ex_partial (length ''d1.2.3.4''))"
    by (simp add: put_payload_text eval_nat_numeral)
  also have "\<dots> = put_str (payload_text value_init) (stream_at (''d1.2.3.4'' @ (nl # take 52 ex_line) @ (drop 52 ex_line @ [nl])) (length ''d1.2.3.4''))"
    by (simp only: c [symmetric])
  also have "\<dots> = stream_at (''d1.2.3.4'' @ payload_text value_init @ (drop 52 ex_line @ [nl])) (length ''d1.2.3.4'' + length (payload_text value_init))"
    by (rule put_str_stream_at) (simp add: payload_text_length l)
  finally have p: "content (put_payload value_init (stream_at ex_partial 8))
      = ''d1.2.3.4'' @ payload_text value_init @ drop 52 ex_line @ [nl]"
    by (simp add: stream_at_def)
  note u = updateAddress_opened [OF ex_world_simps(1,2,3) ex_partial_scan [of ?d1], unfolded r]
  from u show "fst (updateAddress ''1.2.3.4'' ?d ?w) = True" by simp
  from u p show "files (snd (snd (updateAddress ''1.2.3.4'' ?d ?w))) ''/hb.data''
     = Some (''d1.2.3.4'' @ payload_text value_init @ drop 52 ex_line @ [nl])"
    by (simp add: ex_world_simps)
qed

lemma splice_frame:
  assumes "length A = 40" and "length B = 52" and "length Q = 52"
    and "i < length P + 40 \<or> length P + 92 \<le> i"
  shows "(P @ A @ (Q @ [nl]) @ rest) ! i = (P @ A @ B @ nl # rest) ! i"
  using assms by (auto simp: nth_append nth_Cons split: nat.splits)

lemma payload_text_split: "\<exists>Q. payload_text r = Q @ [nl] \<and> length Q = 52"
  using payload_text_length [of r] by (simp add: payload_text_def)


subsection \<open>Compaction and reload\<close>

lemma rjust_set: "set (rjust k s) \<subseteq> insert sp (set s)"
  by (auto simp: rjust_def)

lemma number_field_no_newline: "nl \<notin> set (rjust k (to_string n))"
  using rjust_set [of k "to_string n"] to_string_chars [of nl n] by auto

lemma address_record_no_newline:
  "nl \<notin> set a \<Longrightarrow> nl \<notin> set (butlast (address_record a r))"
  using rjust_set [of 39 a]
  by (auto simp: address_record_def butlast_append number_field_no_newline)

lemma address_record_butlast: "address_record a r = butlast (address_record a r) @ [nl]"
  by (simp add: address_record_def butlast_append)

lemma bookmark_record_butlast: "bookmark_record f = butlast (bookmark_record f) @ [nl]"
  by (simp add: bookmark_record_def butlast_append)

lemma bookmark_record_props:
  "substr (butlast (bookmark_record f)) 0 1 = ''b''"
  "41 \<le> length (butlast (bookmark_record f))"
  "nl \<notin> set (path f) \<Longrightarrow> nl \<notin> set (butlast (bookmark_record f))"
  by (simp_all add: bookmark_record_def butlast_append substr_def field_lengths number_field_no_newline)

lemma ltrim_padding: "ltrim (replicate k sp) = []"
  by (simp add: ltrim_def isspace_def)

lemma decode_address_record:
  assumes "length a \<le> 39" and "a = [] \<or> \<not> isspace (hd a)"
  shows "decode_address (butlast (address_record a r)) = a"
proof (cases "a = []")
  case True
  then show ?thesis
    unfolding decode_address_def address_record_parts(3) [OF assms(1)]
    by (simp add: rjust_def ltrim_padding)
next
  case False
  with assms(2) show ?thesis
    unfolding decode_address_def address_record_parts(3) [OF assms(1)]
    by (simp add: ltrim_rjust)
qed

lemma decode_data_record:
  assumes "length a \<le> 39"
  shows "decode_data (butlast (address_record a r))
       = r\<lparr>blacklisted := (blacklisted r \<and> \<not> whitelisted r), iptableRule := False\<rparr>"
  unfolding decode_data_def Let_def address_record_parts(4-9) [OF assms] decode_field64 decode_field32
  by (cases r) simp

lemma address_record_flags:
  assumes "length a \<le> 39"
  shows "both_flags_set (butlast (address_record a r)) = (whitelisted r \<and> blacklisted r)"
  unfolding both_flags_set_def address_record_parts(8,9) [OF assms] by simp

lemma map_insert_append:
  "\<forall>e \<in> set m. fst e < k \<Longrightarrow> map_insert k v m = (m @ [(k, v)], True)"
proof (induction m)
  case Nil
  show ?case by simp
next
  case (Cons e m)
  obtain k' v' where e: "e = (k', v')" by (cases e)
  with Cons.prems have "k' < k" by simp
  then have "k \<noteq> k'" "\<not> k < k'" by auto
  with Cons e show ?case by simp
qed

lemma readLines_append:
  "readLines (xs @ ys) dup d w =
     (case readLines xs dup d w of
        (Inl e, d', w') \<Rightarrow> (Inl e, d', w')
      | (Inr dup', d', w') \<Rightarrow> readLines ys dup' d' w')"
  by (induction xs arbitrary: dup d w) (auto split: prod.splits sum.splits)

text \<open>Scanning the address lines that \<open>saveData\<close> writes for an index rebuilds the index.\<close>

lemma readLines_address_lines:
  assumes "sorted_wrt (<) (map fst (done @ todo))"
    and "\<forall>(a, r) \<in> set todo. length a \<le> 39 \<and> (a = [] \<or> \<not> isspace (hd a))
           \<and> \<not> (whitelisted r \<and> blacklisted r) \<and> \<not> iptableRule r"
    and "suspiciousAddresses d = done"
  shows "readLines (map (\<lambda>(a, r). butlast (address_record a r)) todo) dup d w
       = (Inr dup, d\<lparr>suspiciousAddresses := done @ todo\<rparr>, w)"
  using assms
proof (induction todo arbitrary: "done" d)
  case Nil
  then show ?case by simp
next
  case (Cons e todo)
  obtain a r where e: "e = (a, r)" by (cases e)
  let ?l = "butlast (address_record a r)"
  from Cons.prems(2) e have c: "length a \<le> 39" "a = [] \<or> \<not> isspace (hd a)"
    "\<not> (whitelisted r \<and> blacklisted r)" "\<not> iptableRule r" by auto
  have live: "live_address_line ?l" using c(1) by (rule address_record_live)
  have k: "decode_address ?l = a" using c(1,2) by (rule decode_address_record)
  have v: "decode_data ?l = r" using c(3,4) by (cases r) (auto simp: decode_data_record [OF c(1)])
  have nf: "\<not> both_flags_set ?l" using c(3) by (simp add: address_record_flags [OF c(1)])
  from Cons.prems(1) e have "\<forall>x \<in> set done. fst x < a" by (auto simp: sorted_wrt_append)
  then have ins: "map_insert a r done = (done @ [(a, r)], True)" by (rule map_insert_append)
  from readLine_live [OF live, of dup d w] k v nf ins Cons.prems(3)
  have s: "readLine ?l dup d w = (Inr dup, d\<lparr>suspiciousAddresses := done @ [(a, r)]\<rparr>, w)"
    by (simp add: Let_def)
  from Cons.prems(1,2) e
  have "readLines (map (\<lambda>(a, r). butlast (address_record a r)) todo) dup (d\<lparr>suspiciousAddresses := done @ [(a, r)]\<rparr>) w
      = (Inr dup, d\<lparr>suspiciousAddresses := done @ [(a, r)]\<rparr>\<lparr>suspiciousAddresses := (done @ [(a, r)]) @ todo\<rparr>, w)"
    by (intro Cons.IH) simp_all
  with s e show ?case by simp
qed

lemma readLines_bookmark_lines:
  assumes "\<forall>l \<in> set ls. substr l 0 1 = ''b'' \<and> 41 \<le> length l"
  shows "\<exists>d'. readLines ls dup d w = (Inr dup, d', w) \<and> suspiciousAddresses d' = suspiciousAddresses d"
  using assms
proof (induction ls arbitrary: d)
  case Nil
  show ?case by simp
next
  case (Cons l ls)
  from Cons.prems have b: "substr l 0 1 = ''b''" "41 \<le> length l" by simp_all
  then have nl: "\<not> live_address_line l" by (simp add: live_address_line_def)
  from readLine_no_throw [of l dup d w] b obtain dup1 d1 where s: "readLine l dup d w = (Inr dup1, d1, w)"
    by auto
  from readLine_not_live [OF nl s] have e: "dup1 = dup" "suspiciousAddresses d1 = suspiciousAddresses d"
    by simp_all
  from Cons.IH [of d1] Cons.prems obtain d' where
    "readLines ls dup d1 w = (Inr dup, d', w)" "suspiciousAddresses d' = suspiciousAddresses d1" by auto
  with s e show ?case by simp
qed

lemma file_of_lines_append: "file_of_lines (xs @ ys) = file_of_lines xs @ file_of_lines ys"
  by (simp add: file_of_lines_def)

lemma address_lines_text:
  "concat (map (\<lambda>(a, r). address_record a r) idx)
     = file_of_lines (map (\<lambda>(a, r). butlast (address_record a r)) idx)"
proof (induction idx)
  case Nil
  show ?case by (simp add: file_of_lines_def)
next
  case (Cons e idx)
  obtain a r where e: "e = (a, r)" by (cases e)
  from Cons e address_record_butlast [of a r] show ?case
    by (simp add: file_of_lines_def)
qed

lemma bookmark_lines_text:
  "concat (map bookmark_record fs) = file_of_lines (map (\<lambda>f. butlast (bookmark_record f)) fs)"
proof (induction fs)
  case Nil
  show ?case by (simp add: file_of_lines_def)
next
  case (Cons f fs)
  with bookmark_record_butlast [of f] show ?case by (simp add: file_of_lines_def)
qed

lemma saveData_text_lines:
  "saveData_text d = file_of_lines
     (map (\<lambda>(a, r). butlast (address_record a r)) (suspiciousAddresses d)
      @ map (\<lambda>f. butlast (bookmark_record f)) (concat (map logFiles (logGroups (config d)))))"
proof -
  have "concat (map (\<lambda>g. concat (map bookmark_record (logFiles g))) gs)
      = concat (map bookmark_record (concat (map logFiles gs)))" for gs
    by (induction gs) simp_all
  then show ?thesis
    by (simp add: saveData_text_def address_lines_text bookmark_lines_text file_of_lines_append)
qed

text \<open>Compaction and reload, for an index whose addresses survive the trimming and whose
  records are as the loader leaves them.\<close>

lemma save_then_load:
  assumes "sorted_wrt (<) (map fst (suspiciousAddresses d))"
    and "\<forall>(a, r) \<in> set (suspiciousAddresses d). length a \<le> 39 \<and> nl \<notin> set a \<and> (a = [] \<or> \<not> isspace (hd a))
           \<and> \<not> (whitelisted r \<and> blacklisted r) \<and> \<not> iptableRule r"
    and "\<forall>g \<in> set (logGroups (config d)). \<forall>f \<in> set (logFiles g). nl \<notin> set (path f)"
    and "can_write w (dataFilePath (config d))" and "can_read w (dataFilePath (config d))"
  shows "fst (saveData d w) = True"
    and "fst (loadData (fst (snd (saveData d w))) (snd (snd (saveData d w)))) = Inr True"
    and "suspiciousAddresses (fst (snd (loadData (fst (snd (saveData d w))) (snd (snd (saveData d w))))))
         = suspiciousAddresses d"
proof -
  let ?p = "dataFilePath (config d)"
  let ?d1 = "log_msg Info (''Updating data in '' @ ?p) d"
  let ?w1 = "w\<lparr>files := (files w)(?p \<mapsto> saveData_text d)\<rparr>"
  let ?A = "map (\<lambda>(a, r). butlast (address_record a r)) (suspiciousAddresses d)"
  let ?B = "map (\<lambda>f. butlast (bookmark_record f)) (concat (map logFiles (logGroups (config d))))"
  from assms(4) have sv: "saveData d w = (True, ?d1, ?w1)"
    by (simp add: saveData_def Let_def)
  then show "fst (saveData d w) = True" by simp
  have nA: "\<forall>l \<in> set ?A. nl \<notin> set l" using assms(2) by (auto simp: address_record_no_newline)
  have nB: "\<forall>l \<in> set ?B. nl \<notin> set l" using assms(3) by (auto simp: bookmark_record_props(3))
  from nA nB have g: "getlines (saveData_text d) = ?A @ ?B"
    unfolding saveData_text_lines by (intro getlines_file_of_lines') auto
  let ?dl = "(log_msg Info (''Loading data from '' @ dataFilePath (config ?d1)) ?d1)\<lparr>suspiciousAddresses := []\<rparr>"
  have a: "readLines ?A False ?dl ?w1 = (Inr False, ?dl\<lparr>suspiciousAddresses := [] @ suspiciousAddresses d\<rparr>, ?w1)"
    using assms(1,2) by (intro readLines_address_lines) auto
  have "\<forall>l \<in> set ?B. substr l 0 1 = ''b'' \<and> 41 \<le> length l"
    using bookmark_record_props(1,2) by fastforce
  from readLines_bookmark_lines [OF this, of False "?dl\<lparr>suspiciousAddresses := [] @ suspiciousAddresses d\<rparr>" ?w1]
  obtain d' where b: "readLines ?B False (?dl\<lparr>suspiciousAddresses := [] @ suspiciousAddresses d\<rparr>) ?w1 = (Inr False, d', ?w1)"
    and i: "suspiciousAddresses d' = suspiciousAddresses d" by auto
  from a b have s: "readLines (getlines (saveData_text d)) False ?dl ?w1 = (Inr False, d', ?w1)"
    by (simp add: g readLines_append)
  have f: "files ?w1 (dataFilePath (config ?d1)) = Some (saveData_text d)" by simp
  have c: "can_read ?w1 (dataFilePath (config ?d1))" using assms(5) by simp
  note l = loadData_opened [OF f c s]
  from l sv show "fst (loadData (fst (snd (saveData d w))) (snd (snd (saveData d w)))) = Inr True"
    by simp
  from l sv i show "suspiciousAddresses (fst (snd (loadData (fst (snd (saveData d w))) (snd (snd (saveData d w))))))
         = suspiciousAddresses d"
    by simp
qed

lemma ex_record_flags: "\<not> whitelisted ex_record" "blacklisted ex_record" "\<not> iptableRule ex_record"
  by (simp_all add: ex_record_def)

lemma readLine_live_fresh:
  assumes "live_address_line l" and "\<not> both_flags_set l" and "suspiciousAddresses d = []"
  shows "readLine l dup d w = (Inr dup, d\<lparr>suspiciousAddresses := [(decode_address l, decode_data l)]\<rparr>, w)"
  unfolding readLine_live [OF assms(1)] Let_def using assms(2,3) by simp


subsection \<open>The file written after duplicates\<close>















subsection \<open>What the loader accepts\<close>

text \<open>C1: the index after \<open>loadData\<close> of a store file that opens holds only decodings of
  lines that begin with d and are 92 bytes long, the type byte and the 91 bytes of the fields;
  a line that begins with d and has any other length changes nothing and logs nothing, so
  that the scan with such lines left out gives the same result; and the writer gives an
  address of at most 39 bytes a line of this width and its newline.\<close>

theorem loadData_accepts_only_full_width_address_lines:
  assumes "files w (dataFilePath (config d)) = Some text" and "can_read w (dataFilePath (config d))"
  shows "(\<forall>(address, rec) \<in> set (suspiciousAddresses (fst (snd (loadData d w)))).
            \<exists>line \<in> set (getlines text). substr line 0 1 = ''d'' \<and> length line = 1 + 91
              \<and> address = decode_address line \<and> rec = decode_data line)
       \<and> (\<forall>line dup0 d0 w0. substr line 0 1 = ''d'' \<and> length line \<noteq> 1 + 91 \<longrightarrow>
             readLine line dup0 d0 w0 = (Inr dup0, d0, w0))
       \<and> (\<forall>dup0 d0 w0.
             readLines (filter (\<lambda>l. \<not> (substr l 0 1 = ''d'' \<and> length l \<noteq> 1 + 91)) (getlines text)) dup0 d0 w0
             = readLines (getlines text) dup0 d0 w0)
       \<and> (\<forall>address rec. length address \<le> 39 \<longrightarrow> length (address_record address rec) = 1 + 91 + 1)"
proof -
  from loadData_scan [OF assms] obtain r d1 where
    s: "readLines (getlines text) False ((log_msg Info (''Loading data from '' @ dataFilePath (config d)) d)\<lparr>suspiciousAddresses := []\<rparr>) w = (r, d1, w)"
    and i: "suspiciousAddresses (fst (snd (loadData d w))) = suspiciousAddresses d1" by blast
  have "\<exists>line \<in> set (getlines text). substr line 0 1 = ''d'' \<and> length line = 1 + 91
      \<and> address = decode_address line \<and> rec = decode_data line"
    if "(address, rec) \<in> set (suspiciousAddresses d1)" for address rec
    using readLines_new_entry [OF s that] by (auto simp: live_address_line_def)
  with i have "\<forall>(address, rec) \<in> set (suspiciousAddresses (fst (snd (loadData d w)))).
            \<exists>line \<in> set (getlines text). substr line 0 1 = ''d'' \<and> length line = 1 + 91
              \<and> address = decode_address line \<and> rec = decode_data line"
    by auto
  moreover have "\<forall>line dup0 d0 w0. substr line 0 1 = ''d'' \<and> length line \<noteq> 1 + 91 \<longrightarrow>
             readLine line dup0 d0 w0 = (Inr dup0, d0, w0)"
    by (simp add: readLine_skip)
  moreover have "\<forall>dup0 d0 w0.
             readLines (filter (\<lambda>l. \<not> (substr l 0 1 = ''d'' \<and> length l \<noteq> 1 + 91)) (getlines text)) dup0 d0 w0
             = readLines (getlines text) dup0 d0 w0"
    using readLines_filter by simp
  moreover have "\<forall>address rec. length address \<le> 39 \<longrightarrow> length (address_record address rec) = 1 + 91 + 1"
    by (simp add: address_record_parts(1))
  ultimately show ?thesis by blast
qed

theorem loadData_accepts_only_full_width_address_lines_witness:
  "suspiciousAddresses (fst (snd (loadData (ex_data [(''9.9.9.9'', ex_record)]) (ex_world (''d1.2.3.4'' @ [nl]))))) = []
   \<and> readLine ''d1.2.3.4'' False (ex_data []) (ex_world (''d1.2.3.4'' @ [nl]))
       = (Inr False, ex_data [], ex_world (''d1.2.3.4'' @ [nl]))
   \<and> length (address_record ''1.2.3.4'' ex_record) = 93"
proof -
  let ?d = "ex_data [(''9.9.9.9'', ex_record)]" and ?w = "ex_world (''d1.2.3.4'' @ [nl])"
  have g: "getlines (''d1.2.3.4'' @ [nl]) = [''d1.2.3.4'']" by (rule getlines_single) simp
  note t = loadData_accepts_only_full_width_address_lines [of ?w ?d "''d1.2.3.4'' @ [nl]", OF ex_world_simps(1,2)]
  have 1: "suspiciousAddresses (fst (snd (loadData ?d ?w))) = []"
  proof (rule ccontr)
    assume "suspiciousAddresses (fst (snd (loadData ?d ?w))) \<noteq> []"
    then obtain e where "e \<in> set (suspiciousAddresses (fst (snd (loadData ?d ?w))))"
      by (cases "suspiciousAddresses (fst (snd (loadData ?d ?w)))") auto
    with t obtain line where "line \<in> set (getlines (''d1.2.3.4'' @ [nl]))" "length line = 1 + 91"
      by fastforce
    with g show False by simp
  qed
  from t have "substr ''d1.2.3.4'' 0 1 = ''d'' \<and> length ''d1.2.3.4'' \<noteq> 1 + 91 \<longrightarrow>
      readLine ''d1.2.3.4'' False (ex_data []) ?w = (Inr False, ex_data [], ?w)" by blast
  then have 2: "readLine ''d1.2.3.4'' False (ex_data []) ?w = (Inr False, ex_data [], ?w)"
    by (simp add: substr_def)
  from t have "length ''1.2.3.4'' \<le> 39 \<longrightarrow> length (address_record ''1.2.3.4'' ex_record) = 1 + 91 + 1"
    by blast
  then have 3: "length (address_record ''1.2.3.4'' ex_record) = 93" by simp
  from 1 2 3 show ?thesis by simp
qed

text \<open>C8: after \<open>loadData\<close> of a store file that opens, no record of the index has both flags
  true, and every record is the decoding of a full-width d line of the file; when both flag
  bytes of that line are y, the record is whitelisted and not blacklisted and the log holds
  the warning for its address.\<close>

theorem loadData_whitelist_wins:
  assumes "files w (dataFilePath (config d)) = Some text" and "can_read w (dataFilePath (config d))"
  shows "\<forall>(address, rec) \<in> set (suspiciousAddresses (fst (snd (loadData d w)))).
           \<not> (whitelisted rec \<and> blacklisted rec)
           \<and> (\<exists>line \<in> set (getlines text). live_address_line line
                 \<and> address = decode_address line \<and> rec = decode_data line
                 \<and> (substr line 90 1 = ''y'' \<and> substr line 91 1 = ''y'' \<longrightarrow>
                      whitelisted rec \<and> \<not> blacklisted rec
                      \<and> (Warning, ''Address '' @ address @ '' is in whitelist and at the same time in blacklist! Removing address from blacklist...'')
                          \<in> set (logger (fst (snd (loadData d w))))))"
proof -
  from loadData_scan [OF assms] obtain r d1 where
    s: "readLines (getlines text) False ((log_msg Info (''Loading data from '' @ dataFilePath (config d)) d)\<lparr>suspiciousAddresses := []\<rparr>) w = (r, d1, w)"
    and i: "suspiciousAddresses (fst (snd (loadData d w))) = suspiciousAddresses d1"
    and l: "set (logger d1) \<subseteq> set (logger (fst (snd (loadData d w))))" by blast
  have "\<not> (whitelisted rec \<and> blacklisted rec)
           \<and> (\<exists>line \<in> set (getlines text). live_address_line line
                 \<and> address = decode_address line \<and> rec = decode_data line
                 \<and> (substr line 90 1 = ''y'' \<and> substr line 91 1 = ''y'' \<longrightarrow>
                      whitelisted rec \<and> \<not> blacklisted rec
                      \<and> (Warning, ''Address '' @ address @ '' is in whitelist and at the same time in blacklist! Removing address from blacklist...'')
                          \<in> set (logger (fst (snd (loadData d w))))))"
    if "(address, rec) \<in> set (suspiciousAddresses d1)" for address rec
  proof -
    from readLines_new_entry [OF s that] obtain line where
      n: "line \<in> set (getlines text)" "live_address_line line" "address = decode_address line"
        "rec = decode_data line" "both_flags_set line \<longrightarrow> whitelist_warning address \<in> set (logger d1)"
      by auto
    from n(4) decode_data_flags(1) have "\<not> (whitelisted rec \<and> blacklisted rec)" by simp
    moreover have "substr line 90 1 = ''y'' \<and> substr line 91 1 = ''y'' \<longrightarrow>
                      whitelisted rec \<and> \<not> blacklisted rec
                      \<and> (Warning, ''Address '' @ address @ '' is in whitelist and at the same time in blacklist! Removing address from blacklist...'')
                          \<in> set (logger (fst (snd (loadData d w))))"
      using n(4,5) l decode_data_flags(2) [of line]
      unfolding both_flags_set_def whitelist_warning_def by auto
    ultimately show ?thesis using n(1-4) by blast
  qed
  with i show ?thesis by auto
qed

theorem loadData_whitelist_wins_witness:
  "suspiciousAddresses (fst (snd (loadData (ex_data []) (ex_world (file_of_lines [ex_line]))))) \<noteq> []
   \<and> fst (hd (suspiciousAddresses (fst (snd (loadData (ex_data []) (ex_world (file_of_lines [ex_line]))))))) = ''1.2.3.4''
   \<and> whitelisted (snd (hd (suspiciousAddresses (fst (snd (loadData (ex_data []) (ex_world (file_of_lines [ex_line]))))))))
   \<and> \<not> blacklisted (snd (hd (suspiciousAddresses (fst (snd (loadData (ex_data []) (ex_world (file_of_lines [ex_line]))))))))
   \<and> (Warning, ''Address 1.2.3.4 is in whitelist and at the same time in blacklist! Removing address from blacklist...'')
       \<in> set (logger (fst (snd (loadData (ex_data []) (ex_world (file_of_lines [ex_line]))))))"
proof -
  let ?t = "file_of_lines [ex_line]"
  let ?d = "ex_data []" and ?w = "ex_world (file_of_lines [ex_line])"
  let ?idx = "suspiciousAddresses (fst (snd (loadData ?d ?w)))"
  have g: "getlines ?t = [ex_line]" by (simp add: ex_line_props)
  have nb: "\<forall>line \<in> set (getlines ?t). substr line 0 1 = ''b'' \<longrightarrow> 41 \<le> length line"
    using ex_line_not_bookmark by (simp add: g)
  have "map_of ?idx ''1.2.3.4'' = Some (decode_data ex_line)"
    using loadData_first_occurrence [OF ex_world_simps(1,2) nb, of "[]" "''1.2.3.4''"]
    by (simp add: g ex_line_props)
  then have ne: "?idx \<noteq> []" by auto
  then have "hd ?idx \<in> set ?idx" by simp
  then have "(fst (hd ?idx), snd (hd ?idx)) \<in> set ?idx" by simp
  with loadData_whitelist_wins [of ?w ?d ?t, OF ex_world_simps(1,2)]
  have "\<exists>line \<in> set (getlines ?t). live_address_line line
      \<and> fst (hd ?idx) = decode_address line \<and> snd (hd ?idx) = decode_data line
      \<and> (substr line 90 1 = ''y'' \<and> substr line 91 1 = ''y'' \<longrightarrow>
            whitelisted (snd (hd ?idx)) \<and> \<not> blacklisted (snd (hd ?idx))
            \<and> (Warning, ''Address '' @ fst (hd ?idx) @ '' is in whitelist and at the same time in blacklist! Removing address from blacklist...'')
                \<in> set (logger (fst (snd (loadData ?d ?w)))))"
    by fast
  with g ex_line_props(3,4) have a: "fst (hd ?idx) = ''1.2.3.4''"
    and b: "whitelisted (snd (hd ?idx)) \<and> \<not> blacklisted (snd (hd ?idx))
      \<and> (Warning, ''Address '' @ fst (hd ?idx) @ '' is in whitelist and at the same time in blacklist! Removing address from blacklist...'')
                \<in> set (logger (fst (snd (loadData ?d ?w))))"
    unfolding both_flags_set_def by auto
  from b [unfolded a] a ne show ?thesis by simp
qed

subsection \<open>Duplicate keys\<close>




subsection \<open>Round trip\<close>

text \<open>C5 as stated fails: the address " 1.2.3.4", eight ASCII characters of which the first is
  a space, is written right-justified in its 39 columns and read back without its leading
  white space; after compaction and reload the index holds the record under the key
  "1.2.3.4".\<close>

theorem round_trip_counterexample:
  "suspiciousAddresses (ex_data [('' 1.2.3.4'', ex_record)]) = [('' 1.2.3.4'', ex_record)]
   \<and> fst (saveData (ex_data [('' 1.2.3.4'', ex_record)]) (ex_world [])) = True
   \<and> fst (loadData (fst (snd (saveData (ex_data [('' 1.2.3.4'', ex_record)]) (ex_world []))))
                   (snd (snd (saveData (ex_data [('' 1.2.3.4'', ex_record)]) (ex_world []))))) = Inr True
   \<and> suspiciousAddresses (fst (snd (loadData (fst (snd (saveData (ex_data [('' 1.2.3.4'', ex_record)]) (ex_world []))))
                   (snd (snd (saveData (ex_data [('' 1.2.3.4'', ex_record)]) (ex_world []))))))) = [(''1.2.3.4'', ex_record)]"
proof -
  let ?d = "ex_data [('' 1.2.3.4'', ex_record)]" and ?w = "ex_world []"
  let ?p = "dataFilePath (config ?d)"
  let ?d1 = "log_msg Info (''Updating data in '' @ ?p) ?d"
  let ?w1 = "?w\<lparr>files := (files ?w)(?p \<mapsto> saveData_text ?d)\<rparr>"
  let ?l = "butlast (address_record '' 1.2.3.4'' ex_record)"
  have sv: "saveData ?d ?w = (True, ?d1, ?w1)"
    by (simp add: saveData_def Let_def ex_world_simps)
  have len: "length '' 1.2.3.4'' \<le> 39" by simp
  have live: "live_address_line ?l" using len by (rule address_record_live)
  have k: "decode_address ?l = ''1.2.3.4''"
    unfolding decode_address_def address_record_parts(3) [OF len]
    by (simp add: rjust_def ltrim_def isspace_def eval_nat_numeral)
  have v: "decode_data ?l = ex_record"
    using ex_record_flags by (cases ex_record) (auto simp: decode_data_record [OF len])
  have nf: "\<not> both_flags_set ?l" using ex_record_flags by (simp add: address_record_flags [OF len])
  have "nl \<notin> set ?l" by (rule address_record_no_newline) simp
  then have g: "getlines (saveData_text ?d) = [?l]"
    unfolding saveData_text_lines by (simp add: ex_data_def ex_config_def)
  let ?dl = "(log_msg Info (''Loading data from '' @ dataFilePath (config ?d1)) ?d1)\<lparr>suspiciousAddresses := []\<rparr>"
  have i0: "suspiciousAddresses ?dl = []" by simp
  have rl: "readLine ?l False ?dl ?w1
      = (Inr False, ?dl\<lparr>suspiciousAddresses := [(''1.2.3.4'', ex_record)]\<rparr>, ?w1)"
    by (rule readLine_live_fresh [OF live nf i0, of False ?w1, unfolded k v])
  have s: "readLines (getlines (saveData_text ?d)) False ?dl ?w1
      = (Inr False, ?dl\<lparr>suspiciousAddresses := [(''1.2.3.4'', ex_record)]\<rparr>, ?w1)"
    unfolding g readLines.simps rl by simp
  have f: "files ?w1 (dataFilePath (config ?d1)) = Some (saveData_text ?d)" by simp
  have c: "can_read ?w1 (dataFilePath (config ?d1))" by (simp add: ex_world_simps)
  note l = loadData_opened [OF f c s]
  from l sv show ?thesis by (simp add: ex_world_simps)
qed

text \<open>C5, amended: let the index be a map (its entries in strictly increasing key order)
  whose addresses have at most 39 bytes, contain no newline and do not begin with white space,
  and whose records have not both flags set and no active iptables rule (the loader clears
  the second flag and the rule flag); let no log file path of the configuration contain a
  newline and let the data file be writable and readable. Then \<open>saveData\<close> succeeds, the
  following \<open>loadData\<close> succeeds, and the index after it equals the index before, entry for
  entry and field for field. Counters of the modelled widths always fit their columns.\<close>

theorem compaction_round_trip:
  assumes "sorted_wrt (<) (map fst (suspiciousAddresses d))"
    and "\<forall>(address, r) \<in> set (suspiciousAddresses d).
           length address \<le> 39 \<and> nl \<notin> set address \<and> (address = [] \<or> \<not> isspace (hd address))
           \<and> \<not> (whitelisted r \<and> blacklisted r) \<and> \<not> iptableRule r"
    and "\<forall>g \<in> set (logGroups (config d)). \<forall>f \<in> set (logFiles g). nl \<notin> set (path f)"
    and "can_write w (dataFilePath (config d))" and "can_read w (dataFilePath (config d))"
  shows "fst (saveData d w) = True
       \<and> fst (loadData (fst (snd (saveData d w))) (snd (snd (saveData d w)))) = Inr True
       \<and> suspiciousAddresses (fst (snd (loadData (fst (snd (saveData d w))) (snd (snd (saveData d w))))))
           = suspiciousAddresses d"
  using save_then_load [OF assms] by simp

theorem compaction_round_trip_witness:
  "fst (saveData (ex_data [(''1.2.3.4'', ex_record)]) (ex_world [])) = True
   \<and> fst (loadData (fst (snd (saveData (ex_data [(''1.2.3.4'', ex_record)]) (ex_world []))))
                   (snd (snd (saveData (ex_data [(''1.2.3.4'', ex_record)]) (ex_world []))))) = Inr True
   \<and> suspiciousAddresses (fst (snd (loadData (fst (snd (saveData (ex_data [(''1.2.3.4'', ex_record)]) (ex_world []))))
                   (snd (snd (saveData (ex_data [(''1.2.3.4'', ex_record)]) (ex_world []))))))) = [(''1.2.3.4'', ex_record)]"
proof -
  let ?d = "ex_data [(''1.2.3.4'', ex_record)]" and ?w = "ex_world []"
  have 1: "sorted_wrt (<) (map fst (suspiciousAddresses ?d))" by (simp add: ex_data_def)
  have 2: "\<forall>(address, r) \<in> set (suspiciousAddresses ?d).
           length address \<le> 39 \<and> nl \<notin> set address \<and> (address = [] \<or> \<not> isspace (hd address))
           \<and> \<not> (whitelisted r \<and> blacklisted r) \<and> \<not> iptableRule r"
    using ex_record_flags by (simp add: ex_data_def isspace_def)
  have 3: "\<forall>g \<in> set (logGroups (config ?d)). \<forall>f \<in> set (logFiles g). nl \<notin> set (path f)"
    by (simp add: ex_data_def ex_config_def)
  from compaction_round_trip [OF 1 2 3 ex_world_simps(3) ex_world_simps(2)]
  show ?thesis by (simp add: ex_world_simps)
qed

subsection \<open>Tombstones\<close>




subsection \<open>Updates in place\<close>

text \<open>C7 as stated fails: a store file whose first line is the partial line d1.2.3.4 (a line
  the loader skips as corrupt) and whose second line, at offset 9, is the full-width d line
  of 1.2.3.4. The scan takes the partial line for the record and writes its 53 bytes from
  offset 8 on, over the newline and over the type byte and the address field of the live
  line: the byte at offset 9 changes from d to a space.\<close>

theorem update_counterexample:
  "live_address_line (getlines ex_partial ! 1) \<and> decode_address (getlines ex_partial ! 1) = ''1.2.3.4''
   \<and> ex_partial ! 9 = CHR ''d''
   \<and> fst (updateAddress ''1.2.3.4'' (ex_data []) (ex_world ex_partial)) = True
   \<and> files (snd (snd (updateAddress ''1.2.3.4'' (ex_data []) (ex_world ex_partial)))) ''/hb.data''
       = Some (''d1.2.3.4'' @ payload_text value_init @ drop 52 ex_line @ [nl])
   \<and> (''d1.2.3.4'' @ payload_text value_init @ drop 52 ex_line @ [nl]) ! 9 = sp"
proof -
  have "ex_partial ! 9 = CHR ''d''" by (simp add: ex_partial_def ex_line_def)
  moreover have "(''d1.2.3.4'' @ payload_text value_init @ drop 52 ex_line @ [nl]) ! 9 = sp"
    by (simp add: payload_text_value_init)
  ultimately show ?thesis
    using ex_partial_update ex_line_props by (simp add: ex_partial_lines)
qed

text \<open>C7, amended: when every line before the target's line keeps the scan aligned
  (\<open>skippable\<close>) and the line is a full-width d line, with its newline, whose address field is
  the target, \<open>updateAddress\<close> succeeds and replaces the 53 bytes after the type byte and the
  address field of that line by the freshly formatted fields of the target's record in the
  index and a newline: the lines before, the first 40 bytes of the line and everything after
  its newline are as they were, at the same offsets, and the length of the file is
  unchanged.\<close>

theorem update_in_place:
  fixes w :: World and d :: Data and address :: string
  defines "p \<equiv> dataFilePath (config d)"
  defines "rec \<equiv> (case map_of (suspiciousAddresses d) address of Some r \<Rightarrow> r | None \<Rightarrow> value_init)"
  assumes "files w p = Some (file_of_lines pre @ line @ nl # rest)"
    and "can_read w p" and "can_write w p"
    and "\<forall>l \<in> set pre. skippable address l" and "matching_line address line"
  shows "fst (updateAddress address d w) = True
       \<and> files (snd (snd (updateAddress address d w)))
           = (files w)(p \<mapsto> file_of_lines pre @ take 40 line @ payload_text rec @ rest)
       \<and> length (payload_text rec) = 53
       \<and> length (file_of_lines pre @ take 40 line @ payload_text rec @ rest)
           = length (file_of_lines pre @ line @ nl # rest)
       \<and> (\<forall>i. i < length (file_of_lines pre) + 40 \<or> length (file_of_lines pre) + 92 \<le> i \<longrightarrow>
             (file_of_lines pre @ take 40 line @ payload_text rec @ rest) ! i
             = (file_of_lines pre @ line @ nl # rest) ! i)"
proof -
  note u = updateAddress_match [OF assms(3-7) [unfolded p_def], folded rec_def p_def]
  from assms(7) have l: "length line = 92" by (simp add: matching_line_def)
  from payload_text_split obtain Q where Q: "payload_text rec = Q @ [nl]" "length Q = 52" by blast
  have e: "file_of_lines pre @ line @ nl # rest = file_of_lines pre @ take 40 line @ drop 40 line @ nl # rest"
    by (simp add: append_assoc [symmetric] del: append_assoc)
  have frame: "(file_of_lines pre @ take 40 line @ payload_text rec @ rest) ! i
             = (file_of_lines pre @ line @ nl # rest) ! i"
    if "i < length (file_of_lines pre) + 40 \<or> length (file_of_lines pre) + 92 \<le> i" for i
    unfolding e Q(1) using l Q(2) that by (intro splice_frame) simp_all
  from u l frame show ?thesis by (simp add: payload_text_length)
qed

theorem update_in_place_witness:
  "fst (updateAddress ''1.2.3.4'' (ex_data [(''1.2.3.4'', ex_record)]) (ex_world (file_of_lines [ex_bookmark, ex_line]))) = True
   \<and> files (snd (snd (updateAddress ''1.2.3.4'' (ex_data [(''1.2.3.4'', ex_record)]) (ex_world (file_of_lines [ex_bookmark, ex_line])))))
       ''/hb.data'' = Some (file_of_lines [ex_bookmark] @ take 40 ex_line @ payload_text ex_record)
   \<and> length (file_of_lines [ex_bookmark] @ take 40 ex_line @ payload_text ex_record)
       = length (file_of_lines [ex_bookmark, ex_line])"
proof -
  let ?w = "ex_world (file_of_lines [ex_bookmark, ex_line])"
  let ?d = "ex_data [(''1.2.3.4'', ex_record)]"
  have f: "files ?w (dataFilePath (config ?d)) = Some (file_of_lines [ex_bookmark] @ ex_line @ nl # [])"
    by (simp add: ex_world_def ex_data_def ex_config_def file_of_lines_def)
  have sk: "\<forall>l \<in> set [ex_bookmark]. skippable ''1.2.3.4'' l"
    using ex_bookmark_props(1,2) by (simp add: skippable_def) (simp add: ex_bookmark_def)
  have r: "(case map_of (suspiciousAddresses ?d) ''1.2.3.4'' of Some r \<Rightarrow> r | None \<Rightarrow> value_init) = ex_record"
    by (simp add: ex_data_def)
  have e: "file_of_lines [ex_bookmark] @ ex_line @ [nl] = file_of_lines [ex_bookmark, ex_line]"
    by (simp add: file_of_lines_def)
  note t = update_in_place [where w = ?w and d = ?d and pre = "[ex_bookmark]" and line = ex_line
        and rest = "[]" and address = "''1.2.3.4''",
      OF f ex_world_simps(2,3) sk ex_line_matching, unfolded r e ex_world_simps(5)]
  then show ?thesis by (simp add: ex_world_def)
qed

subsection \<open>The bookmark operations are not implemented\<close>

text \<open>C2: a store file whose only line is the bookmark of /var/log/auth.log, loaded with a
  configuration without log files. \<open>loadData\<close> succeeds and warns that it removes the
  bookmark from the datafile, but the file is unchanged: its line still begins with b.
  (No bookmark enters the configuration, which has no log file to hold one.)\<close>

theorem orphan_bookmark_is_not_tombstoned:
  "fst (loadData (ex_data []) (ex_world (file_of_lines [ex_bookmark]))) = Inr True
   \<and> files (snd (snd (loadData (ex_data []) (ex_world (file_of_lines [ex_bookmark]))))) ''/hb.data''
       = Some (file_of_lines [ex_bookmark])
   \<and> hd (file_of_lines [ex_bookmark]) = CHR ''b''
   \<and> (Warning, ''Bookmark information in datafile for log file /var/log/auth.log found, but file not present in configuration. Removing from datafile...'')
       \<in> set (logger (fst (snd (loadData (ex_data []) (ex_world (file_of_lines [ex_bookmark]))))))
   \<and> logGroups (config (fst (snd (loadData (ex_data []) (ex_world (file_of_lines [ex_bookmark])))))) = []"
proof -
  let ?t = "file_of_lines [ex_bookmark]"
  let ?d = "ex_data []" and ?w = "ex_world (file_of_lines [ex_bookmark])"
  let ?dl = "(log_msg Info (''Loading data from '' @ dataFilePath (config ?d)) ?d)\<lparr>suspiciousAddresses := []\<rparr>"
  have g: "getlines ?t = [ex_bookmark]" by (simp add: ex_bookmark_props)
  have lg: "logGroups (config ?dl) = []" by (simp add: ex_data_def ex_config_def)
  have "readLine ex_bookmark False ?dl ?w =
      (Inr False, log_msg Warning (''Bookmark information in datafile for log file '' @ ''/var/log/auth.log'' @ '' found, but file not present in configuration. Removing from datafile...'') ?dl, ?w)"
    unfolding readLine_bookmark [OF ex_bookmark_props(2)] Let_def ex_bookmark_props(5) lg
    using ex_bookmark_props(3) by simp
  then have s: "readLines (getlines ?t) False ?dl ?w =
      (Inr False, log_msg Warning (''Bookmark information in datafile for log file '' @ ''/var/log/auth.log'' @ '' found, but file not present in configuration. Removing from datafile...'') ?dl, ?w)"
    by (simp add: g)
  from loadData_opened [OF ex_world_simps(1,2) s] lg ex_bookmark_props(4)
  show ?thesis by (simp add: ex_world_def)
qed

text \<open>C3: the bookmark operations would append, overwrite in place and tombstone a b line
  and report success. In the source the three functions have an empty body that returns
  false: whatever the path, the object and the file system, each returns failure and
  changes nothing.\<close>

theorem bookmark_operations_do_nothing:
  "addFile filePath d w = (False, d, w)
   \<and> updateFile filePath d w = (False, d, w)
   \<and> removeFile filePath d w = (False, d, w)"
  by (simp add: addFile_def updateFile_def removeFile_def)

subsection \<open>A missing record\<close>

text \<open>C9 as stated fails when a live d line is one that the loader takes for a record (92
  bytes): the store file that holds the single line d1.2.3.4 has no such line, yet the scan
  takes the 8 bytes for the record of 1.2.3.4 and both operations return success.\<close>

theorem missing_record_counterexample:
  "getlines ex_short = [''d1.2.3.4'']
   \<and> \<not> live_address_line ''d1.2.3.4''
   \<and> fst (updateAddress ''1.2.3.4'' (ex_data []) (ex_world ex_short)) = True
   \<and> fst (removeAddress ''1.2.3.4'' (ex_data []) (ex_world ex_short)) = True"
proof -
  have "0 \<in> set (scan_positions ex_short 0)"
    by (rule scan_positions_here) (simp add: ex_short_def)
  with ex_short_match have "\<exists>n \<in> set (scan_positions ex_short 0). match_at ''1.2.3.4'' ex_short n" ..
  with updateAddress_found [OF ex_opens [of ex_short "[]"], of "''1.2.3.4''"]
    removeAddress_found [OF ex_opens [of ex_short "[]"], of "''1.2.3.4''"]
  show ?thesis by (simp add: ex_short_lines live_address_line_def)
qed

text \<open>C9, amended: for a store file that opens, \<open>updateAddress\<close> and \<open>removeAddress\<close> each
  return failure exactly when the scan finds no match, that is when at none of the positions
  at which its single pass reads a type byte (\<open>scan_positions\<close>: the start of the file, the
  byte 53 after the end of the address field of a d, the byte after the first newline that
  is at least 42 bytes after any other type byte) a byte d is followed by an address field,
  of at most 39 bytes and up to a newline, that trimmed is the target; the length of the
  line is not looked at. They then log the error of the missing record. In particular the
  scan finds no match in a file whose lines are all aligned (\<open>skippable\<close>: full-width d
  lines of other addresses, lines of another type of at least 42 bytes).\<close>

theorem missing_record_exactly_when_scan_finds_no_match:
  assumes "files w (dataFilePath (config d)) = Some bytes"
    and "can_read w (dataFilePath (config d))" and "can_write w (dataFilePath (config d))"
  shows "fst (updateAddress address d w) = (\<exists>n \<in> set (scan_positions bytes 0). match_at address bytes n)
       \<and> fst (removeAddress address d w) = (\<exists>n \<in> set (scan_positions bytes 0). match_at address bytes n)
       \<and> ((\<forall>n \<in> set (scan_positions bytes 0). \<not> match_at address bytes n) \<longrightarrow>
            fst (updateAddress address d w) = False
            \<and> (Error, ''Unable to update '' @ address @ '' in data file, record not found in data file!'')
                \<in> set (logger (fst (snd (updateAddress address d w))))
            \<and> fst (removeAddress address d w) = False
            \<and> (Error, ''Tried removing address '' @ address @ '' from datafile, but record is not present in datafile!'')
                \<in> set (logger (fst (snd (removeAddress address d w)))))
       \<and> (\<forall>ls. bytes = file_of_lines ls \<and> (\<forall>l \<in> set ls. skippable address l) \<longrightarrow>
            (\<forall>n \<in> set (scan_positions bytes 0). \<not> match_at address bytes n))"
  using updateAddress_found [OF assms, of address] removeAddress_found [OF assms, of address]
    point_operation_error_logged [OF assms, of address] aligned_no_match [of _ address]
  by blast

theorem missing_record_exactly_when_scan_finds_no_match_witness:
  "ex_embedded = file_of_lines [''b                   5                   9/d1.2.3.4'']
   \<and> skippable ''1.2.3.4'' ''b                   5                   9/d1.2.3.4''
   \<and> scan_positions ex_embedded 0 = [0]
   \<and> ex_embedded ! 42 = CHR ''d''
   \<and> ltrim (c_str (address_field_at ex_embedded 43)) = ''1.2.3.4''
   \<and> fst (updateAddress ''1.2.3.4'' (ex_data []) (ex_world ex_embedded)) = False
   \<and> (Error, ''Unable to update 1.2.3.4 in data file, record not found in data file!'')
       \<in> set (logger (fst (snd (updateAddress ''1.2.3.4'' (ex_data []) (ex_world ex_embedded)))))
   \<and> fst (removeAddress ''1.2.3.4'' (ex_data []) (ex_world ex_embedded)) = False
   \<and> (Error, ''Tried removing address 1.2.3.4 from datafile, but record is not present in datafile!'')
       \<in> set (logger (fst (snd (removeAddress ''1.2.3.4'' (ex_data []) (ex_world ex_embedded)))))"
proof -
  have a: "ex_embedded = file_of_lines [''b                   5                   9/d1.2.3.4'']"
    "skippable ''1.2.3.4'' ''b                   5                   9/d1.2.3.4''"
    by (simp_all add: ex_embedded_def file_of_lines_def skippable_def substr_def)
  note t = missing_record_exactly_when_scan_finds_no_match [OF ex_opens [of ex_embedded "[]"], of "''1.2.3.4''"]
  from t have "ex_embedded = file_of_lines [''b                   5                   9/d1.2.3.4'']
      \<and> (\<forall>l \<in> set [''b                   5                   9/d1.2.3.4'']. skippable ''1.2.3.4'' l)
      \<longrightarrow> (\<forall>n \<in> set (scan_positions ex_embedded 0). \<not> match_at ''1.2.3.4'' ex_embedded n)"
    by blast
  with a have "\<forall>n \<in> set (scan_positions ex_embedded 0). \<not> match_at ''1.2.3.4'' ex_embedded n"
    by simp
  with t a ex_embedded_props(1,2) ex_embedded_positions show ?thesis by simp
qed

text \<open>C10: whenever \<open>updateAddress\<close> or \<open>removeAddress\<close> returns failure, for a missing
  record or for a file that cannot be opened, the files are unchanged, the store file
  byte for byte, and so is the whole in-memory index.\<close>

theorem failed_point_operation_changes_nothing:
  "(fst (updateAddress address d w) = False \<longrightarrow>
      files (snd (snd (updateAddress address d w))) = files w
      \<and> suspiciousAddresses (fst (snd (updateAddress address d w))) = suspiciousAddresses d)
   \<and> (fst (removeAddress address d w) = False \<longrightarrow>
      files (snd (snd (removeAddress address d w))) = files w
      \<and> suspiciousAddresses (fst (snd (removeAddress address d w))) = suspiciousAddresses d)"
proof -
  let ?p = "dataFilePath (config d)"
  let ?d = "log_msg Debug (''Updating record in '' @ ?p @ '', updating address '' @ address) d"
  have idem: "\<And>t. files w ?p = Some t \<Longrightarrow> (files w)(?p \<mapsto> t) = files w"
    by (rule ext) simp
  have up: "fst (updateAddress address d w) = False \<Longrightarrow>
      files (snd (snd (updateAddress address d w))) = files w
      \<and> suspiciousAddresses (fst (snd (updateAddress address d w))) = suspiciousAddresses d"
  proof (cases "files w ?p \<noteq> None \<and> can_read w ?p \<and> can_write w ?p")
    case False
    then show ?thesis by (simp add: point_operation_not_opened)
  next
    case True
    then obtain t where t: "files w ?p = Some t" by auto
    assume f: "fst (updateAddress address d w) = False"
    obtain b d' f' where s: "update_scan address ?d (fopen t) = (b, d', f')"
      by (cases "update_scan address ?d (fopen t)")
    from True t have o: "can_read w ?p" "can_write w ?p" by auto
    note eq = updateAddress_opened [OF t o s]
    from f eq have "\<not> b" by (auto split: if_splits)
    with s update_scan_False [of address ?d "fopen t" d' f'] have "d' = ?d" "content f' = t"
      by (auto simp: fopen_def)
    with eq \<open>\<not> b\<close> idem [OF t] show ?thesis by simp
  qed
  have rm: "fst (removeAddress address d w) = False \<Longrightarrow>
      files (snd (snd (removeAddress address d w))) = files w
      \<and> suspiciousAddresses (fst (snd (removeAddress address d w))) = suspiciousAddresses d"
  proof (cases "files w ?p \<noteq> None \<and> can_read w ?p \<and> can_write w ?p")
    case False
    then show ?thesis by (simp add: point_operation_not_opened)
  next
    case True
    then obtain t where t: "files w ?p = Some t" by auto
    assume f: "fst (removeAddress address d w) = False"
    obtain b f' where s: "remove_scan address (fopen t) = (b, f')"
      by (cases "remove_scan address (fopen t)")
    from True t have o: "can_read w ?p" "can_write w ?p" by auto
    note eq = removeAddress_opened [OF t o s]
    from f eq have "\<not> b" by (auto split: if_splits)
    with s remove_scan_content_False [of address "fopen t" f'] have "content f' = t"
      by (auto simp: fopen_def)
    with eq \<open>\<not> b\<close> idem [OF t] show ?thesis by simp
  qed
  from up rm show ?thesis by blast
qed

theorem failed_point_operation_changes_nothing_witness:
  "fst (updateAddress ''1.2.3.4'' (ex_data [(''1.2.3.4'', ex_record)]) (ex_world ex_tombstone)) = False
   \<and> files (snd (snd (updateAddress ''1.2.3.4'' (ex_data [(''1.2.3.4'', ex_record)]) (ex_world ex_tombstone))))
       = files (ex_world ex_tombstone)
   \<and> suspiciousAddresses (fst (snd (updateAddress ''1.2.3.4'' (ex_data [(''1.2.3.4'', ex_record)]) (ex_world ex_tombstone))))
       = [(''1.2.3.4'', ex_record)]
   \<and> fst (removeAddress ''1.2.3.4'' (ex_data [(''1.2.3.4'', ex_record)]) (ex_world ex_tombstone)) = False
   \<and> files (snd (snd (removeAddress ''1.2.3.4'' (ex_data [(''1.2.3.4'', ex_record)]) (ex_world ex_tombstone))))
       = files (ex_world ex_tombstone)
   \<and> suspiciousAddresses (fst (snd (removeAddress ''1.2.3.4'' (ex_data [(''1.2.3.4'', ex_record)]) (ex_world ex_tombstone))))
       = [(''1.2.3.4'', ex_record)]"
proof -
  let ?d = "ex_data [(''1.2.3.4'', ex_record)]"
  let ?w = "ex_world ex_tombstone"
  have o: "files ?w (dataFilePath (config ?d)) = Some ex_tombstone"
    "can_read ?w (dataFilePath (config ?d))" "can_write ?w (dataFilePath (config ?d))"
    by (simp_all add: ex_world_def ex_data_def ex_config_def)
  have "CHR ''d'' \<notin> set ex_tombstone" by (simp add: ex_tombstone_def)
  then have nm: "\<forall>n < length (content (fopen ex_tombstone)). content (fopen ex_tombstone) ! n = CHR ''d'' \<longrightarrow>
      ltrim (c_str (address_field_at (content (fopen ex_tombstone)) (n + 1))) \<noteq> ''1.2.3.4''"
    by (metis fopen_def fstream.select_convs(1) nth_mem)
  obtain b d' f' where s: "update_scan ''1.2.3.4'' (log_msg Debug (''Updating record in '' @ dataFilePath (config ?d) @ '', updating address '' @ ''1.2.3.4'') ?d) (fopen ex_tombstone) = (b, d', f')"
    using prod_cases3 by blast
  with update_scan_no_match [OF nm] have b: "\<not> b" by (metis fst_conv)
  obtain b2 f2 where s2: "remove_scan ''1.2.3.4'' (fopen ex_tombstone) = (b2, f2)"
    by (cases "remove_scan ''1.2.3.4'' (fopen ex_tombstone)")
  with remove_scan_no_match [OF nm] have b2: "\<not> b2" by (metis fst_conv)
  from updateAddress_opened [OF o s] b have u: "fst (updateAddress ''1.2.3.4'' ?d ?w) = False" by simp
  from removeAddress_opened [OF o s2] b2 have r: "fst (removeAddress ''1.2.3.4'' ?d ?w) = False" by simp
  have i: "suspiciousAddresses ?d = [(''1.2.3.4'', ex_record)]" by (simp add: ex_data_def)
  from failed_point_operation_changes_nothing [of "''1.2.3.4''" ?d ?w] u r i
  show ?thesis by simp
qed

end
